theory Spec2Isabelle
  imports Complex_Main "HOL-Library.Log_Nat"
begin

section \<open>JavaScript values used by the reader core\<close>

text \<open>
  A JavaScript string is modelled as the list of its Unicode code points, the view the
  \<^verbatim>\<open>u\<close>-flagged regular expressions of the tokenizer have of it. The regular
  expressions without the flag and \<^verbatim>\<open>trim\<close> only look at characters of the Basic
  Multilingual Plane, where code points and UTF-16 code units coincide.
\<close>

type_synonym jsstring = "nat list"

definition str :: "string \<Rightarrow> jsstring" where
  "str s = map of_char s"

text \<open>Decimal rendering of a non-negative integer, as a template literal renders it.\<close>

fun digits :: "nat \<Rightarrow> jsstring" where
  "digits n = (if n < 10 then [48 + n] else digits (n div 10) @ [48 + n mod 10])"

declare digits.simps [simp del]

text \<open>
  White space as \<^verbatim>\<open>String.prototype.trim\<close> and the class \<^verbatim>\<open>\s\<close> understand it: the
  WhiteSpace and LineTerminator code points of ECMAScript.
\<close>

definition is_space :: "nat \<Rightarrow> bool" where
  "is_space c \<longleftrightarrow>
     c = 9 \<or> c = 10 \<or> c = 11 \<or> c = 12 \<or> c = 13 \<or> c = 32 \<or> c = 160 \<or> c = 5760
     \<or> (8192 \<le> c \<and> c \<le> 8202) \<or> c = 8232 \<or> c = 8233 \<or> c = 8239 \<or> c = 8287
     \<or> c = 12288 \<or> c = 65279"

definition trim :: "jsstring \<Rightarrow> jsstring" where
  "trim s = rev (dropWhile is_space (rev (dropWhile is_space s)))"

text \<open>
  A JavaScript number: a finite value, which is a rational number, one of the two
  infinities, or NaN. \<open>js_le\<close> is the comparison \<^verbatim>\<open><=\<close>.
\<close>

datatype jsnum = Finite rat | PosInf | NegInf | NaN

definition num :: "int \<Rightarrow> jsnum" where
  "num i = Finite (of_int i)"

fun js_le :: "jsnum \<Rightarrow> jsnum \<Rightarrow> bool" where
  "js_le NaN y = False"
| "js_le x NaN = False"
| "js_le NegInf y = True"
| "js_le x PosInf = True"
| "js_le (Finite a) (Finite b) = (a \<le> b)"
| "js_le x y = False"

text \<open>The exceptions that the modelled code can raise.\<close>

datatype js_error = SyntaxError | TypeError

section \<open>Arithmetic on JavaScript numbers\<close>

text \<open>
  The finite numbers of JavaScript are the IEEE 754 binary64 numbers, and every arithmetic
  operation returns the exact result rounded to the nearest of them, ties to the one with an
  even significand. Finite values are rational numbers here; \<open>fl64\<close> rounds a rational
  number to 53 significant bits. Overflow to an infinity and the gradual underflow of
  subnormal numbers are outside the model: the exponent is not bounded.
\<close>

definition round_ties_even :: "rat \<Rightarrow> int" where
  "round_ties_even x =
     (let f = \<lfloor>x\<rfloor>; d = x - of_int f
      in if d < 1 / 2 then f else if 1 / 2 < d then f + 1 else if even f then f else f + 1)"

definition pow2 :: "int \<Rightarrow> rat" where
  "pow2 e = (if 0 \<le> e then 2 ^ nat e else 1 / 2 ^ nat (- e))"

text \<open>The integer \<open>k\<close> with \<open>2 ^ k \<le> x < 2 ^ (k + 1)\<close>, for \<open>x > 0\<close>.\<close>

definition ilog2 :: "rat \<Rightarrow> int" where
  "ilog2 x =
     (let k = bitlen (fst (quotient_of x)) - bitlen (snd (quotient_of x))
      in if pow2 k \<le> x then k else k - 1)"

definition fl64 :: "rat \<Rightarrow> rat" where
  "fl64 x =
     (if x = 0 then 0
      else (let e = ilog2 \<bar>x\<bar> - 52 in of_int (round_ties_even (x / pow2 e)) * pow2 e))"

definition js_add :: "rat \<Rightarrow> rat \<Rightarrow> rat" where
  "js_add x y = fl64 (x + y)"

definition js_mul :: "rat \<Rightarrow> rat \<Rightarrow> rat" where
  "js_mul x y = fl64 (x * y)"

text \<open>Division by a number other than zero.\<close>

definition js_div :: "rat \<Rightarrow> rat \<Rightarrow> rat" where
  "js_div x y = fl64 (x / y)"

text \<open>A decimal literal of the source denotes the nearest binary64 number.\<close>

definition literal :: "rat \<Rightarrow> rat" where
  "literal x = fl64 x"

text \<open>
  The sum of two integer-valued numbers, which is integer-valued again, as an integer. Up to
  \<open>2 ^ 53\<close> it is the exact sum; above, it is the exact sum rounded.
\<close>

definition js_add_int :: "int \<Rightarrow> int \<Rightarrow> int" where
  "js_add_int a b = \<lfloor>js_add (of_int a) (of_int b)\<rfloor>"

section \<open>Playback delay (src/reader/usePlayback.ts)\<close>

text \<open>
  The Unicode property classes \<^verbatim>\<open>\p{L}\<close> and \<^verbatim>\<open>\p{N}\<close> belong to the regular expression
  engine. The functions that use them take the class of letters and numbers as the
  parameter \<open>LN\<close>; \<open>ascii_alnum\<close> is that class on the ASCII code points.
\<close>

definition ascii_alnum :: "nat \<Rightarrow> bool" where
  "ascii_alnum c \<longleftrightarrow> (48 \<le> c \<and> c \<le> 57) \<or> (65 \<le> c \<and> c \<le> 90) \<or> (97 \<le> c \<and> c \<le> 122)"

text \<open>\<^verbatim>\<open>String.prototype.length\<close> counts UTF-16 code units.\<close>

definition utf16_length :: "jsstring \<Rightarrow> nat" where
  "utf16_length s = sum_list (map (\<lambda>c. if 65536 \<le> c then 2 else 1) s)"

text \<open>
  The character classes of the two pause patterns: \<^verbatim>\<open>[;,:]\<close>, \<^verbatim>\<open>[.!?]\<close> and the class
  of closing brackets and quotes (right parenthesis, double quote, apostrophe, right square
  bracket, right brace, U+201D and U+00BB).
\<close>

definition soft_mark :: "nat \<Rightarrow> bool" where
  "soft_mark c \<longleftrightarrow> c = 59 \<or> c = 44 \<or> c = 58"

definition hard_mark :: "nat \<Rightarrow> bool" where
  "hard_mark c \<longleftrightarrow> c = 46 \<or> c = 33 \<or> c = 63"

definition pause_closer :: "nat \<Rightarrow> bool" where
  "pause_closer c \<longleftrightarrow> c = 41 \<or> c = 34 \<or> c = 39 \<or> c = 93 \<or> c = 125 \<or> c = 8221 \<or> c = 187"

text \<open>
  \<^verbatim>\<open>test\<close> for a pattern of the form \<^verbatim>\<open>/[marks]+[closers]*$/u\<close>: the pattern matches
  somewhere in the token when, from some position \<open>i\<close> on, the token consists of \<open>n \<ge> 1\<close>
  marks followed by closers only.
\<close>

definition pause_test :: "(nat \<Rightarrow> bool) \<Rightarrow> jsstring \<Rightarrow> bool" where
  "pause_test mark token =
     list_ex (\<lambda>i.
        list_ex (\<lambda>n. list_all mark (take n (drop i token))
                     \<and> list_all pause_closer (drop (i + n) token))
          [1..<Suc (length token - i)])
       [0..<Suc (length token)]"

definition computeDelayMs :: "(nat \<Rightarrow> bool) \<Rightarrow> jsstring \<Rightarrow> rat \<Rightarrow> bool \<Rightarrow> rat" where
  "computeDelayMs LN token wpm punctuationPauses =
     (let baseMs = js_div 60000 (max 1 wpm)
      in if \<not> punctuationPauses then baseMs
         else
           (let multiplier = 1;
                coreWord = filter LN token;
                multiplier =
                  (if token = [10] then js_add multiplier 1
                   else if pause_test hard_mark token then js_add multiplier (literal (7 / 10))
                   else if pause_test soft_mark token then js_add multiplier (literal (3 / 10))
                   else multiplier);
                multiplier =
                  (if 12 < utf16_length coreWord then js_add multiplier (literal (1 / 10))
                   else multiplier)
            in js_mul baseMs multiplier))"

text \<open>
  The multiplier in the words of the specification. A token ends with a mark, after its
  trailing closing brackets and quotes are stripped, when what is left is not empty and its
  last character is a mark.
\<close>

definition ends_with_mark :: "(nat \<Rightarrow> bool) \<Rightarrow> jsstring \<Rightarrow> bool" where
  "ends_with_mark mark token =
     (let stripped = rev (dropWhile pause_closer (rev token))
      in stripped \<noteq> [] \<and> mark (last stripped))"

definition spec_multiplier :: "(nat \<Rightarrow> bool) \<Rightarrow> jsstring \<Rightarrow> rat" where
  "spec_multiplier LN token =
     (let pause =
            (if token = [10] then js_add 1 1
             else if ends_with_mark hard_mark token then js_add 1 (literal (7 / 10))
             else if ends_with_mark soft_mark token then js_add 1 (literal (3 / 10))
             else 1)
      in if 12 < utf16_length (filter LN token) then js_add pause (literal (1 / 10))
         else pause)"

section \<open>Chapter index (src/reader/chapters.ts)\<close>

text \<open>
  A chapter record as \<^verbatim>\<open>normalizeChapters\<close> reads it: the bounds are the values of
  \<^verbatim>\<open>Number(chapter.startToken)\<close> and \<^verbatim>\<open>Number(chapter.endToken)\<close>, so that a bound
  that is absent is \<open>NaN\<close>, and a title that is absent is the empty string, which
  \<^verbatim>\<open>chapter.title?.trim() || ...\<close> treats in the same way.
\<close>

record ChapterMeta =
  title :: jsstring
  startToken :: jsnum
  endToken :: jsnum

text \<open>
  The entries that the \<^verbatim>\<open>map\<close> step of \<^verbatim>\<open>normalizeChapters\<close> produces: the title
  as given and the clamped integer bounds.
\<close>

record clamped =
  c_title :: jsstring
  c_start :: int
  c_end :: int

text \<open>
  The callback of the \<^verbatim>\<open>map\<close> step; \<open>None\<close> is its \<^verbatim>\<open>null\<close>, which the
  \<^verbatim>\<open>filter\<close> step removes. The token count is an integer, and \<^verbatim>\<open>tokenCount - 1\<close> is
  the rounded difference.
\<close>

definition clampChapter :: "int \<Rightarrow> ChapterMeta \<Rightarrow> clamped option" where
  "clampChapter tokenCount chapter =
     (case startToken chapter of
        Finite rawStart \<Rightarrow>
          Some \<lparr>c_title = title chapter,
                c_start = max 0 (min (js_add_int tokenCount (- 1)) \<lfloor>rawStart\<rfloor>),
                c_end = (case endToken chapter of
                           Finite rawEnd \<Rightarrow> max 0 (min tokenCount \<lfloor>rawEnd\<rfloor>)
                         | _ \<Rightarrow> tokenCount)\<rparr>
      | _ \<Rightarrow> None)"

text \<open>
  The \<^verbatim>\<open>for\<close> loop over the sorted entries: \<open>chapter # rest\<close> is what is left of
  \<^verbatim>\<open>sorted\<close> from index \<open>i\<close> on, so that \<^verbatim>\<open>sorted[i + 1]\<close> is the head of \<open>rest\<close>.
  \<^verbatim>\<open>chapter.startToken + 1\<close> is the rounded sum.
\<close>

fun normalizeLoop :: "int \<Rightarrow> clamped list \<Rightarrow> ChapterMeta list \<Rightarrow> ChapterMeta list" where
  "normalizeLoop tokenCount [] normalized = normalized"
| "normalizeLoop tokenCount (chapter # rest) normalized =
     (if normalized \<noteq> [] \<and> startToken (last normalized) = num (c_start chapter)
      then normalizeLoop tokenCount rest normalized
      else
        (let fallbackEnd = (case rest of [] \<Rightarrow> tokenCount | next # _ \<Rightarrow> c_start next);
             safeEnd = max (js_add_int (c_start chapter) 1)
                         (min tokenCount
                            (if c_end chapter \<noteq> 0 then c_end chapter else fallbackEnd));
             trimmed = trim (c_title chapter);
             title' = (if trimmed \<noteq> [] then trimmed
                       else str ''Chapter '' @ digits (length normalized + 1))
         in normalizeLoop tokenCount rest
              (normalized @
                 [\<lparr>title = title', startToken = num (c_start chapter), endToken = num safeEnd\<rparr>])))"

text \<open>
  \<^verbatim>\<open>normalizeChapters\<close>. An \<^verbatim>\<open>undefined\<close> chapter list is treated as the empty one.
  \<^verbatim>\<open>Array.prototype.sort\<close> is stable, as \<open>sort_key\<close> is.
\<close>

definition normalizeChapters :: "ChapterMeta list \<Rightarrow> int \<Rightarrow> ChapterMeta list" where
  "normalizeChapters chapters tokenCount =
     (if chapters = [] \<or> tokenCount \<le> 0 then []
      else
        (let sorted = sort_key c_start (List.map_filter (clampChapter tokenCount) chapters)
         in normalizeLoop tokenCount sorted []))"

text \<open>
  The \<^verbatim>\<open>while\<close> loop of \<^verbatim>\<open>findChapterIndex\<close>. Reading \<^verbatim>\<open>chapters[mid].startToken\<close>
  at an index outside the array raises a TypeError.
\<close>

function bsearch ::
  "ChapterMeta list \<Rightarrow> jsnum \<Rightarrow> int \<Rightarrow> int \<Rightarrow> int \<Rightarrow> js_error + int"
where
  "bsearch chapters tokenIndex low high best =
     (if low \<le> high then
        (let mid = (low + high) div 2
         in if mid < 0 \<or> int (length chapters) \<le> mid then Inl TypeError
            else if js_le (startToken (chapters ! nat mid)) tokenIndex
            then bsearch chapters tokenIndex (mid + 1) high mid
            else bsearch chapters tokenIndex low (mid - 1) best)
      else Inr best)"
  by pat_completeness auto
termination
  by (relation "measure (\<lambda>(chapters, tokenIndex, low, high, best). nat (high + 1 - low))") auto

declare bsearch.simps [simp del]

definition findChapterIndex :: "ChapterMeta list \<Rightarrow> jsnum \<Rightarrow> js_error + int" where
  "findChapterIndex chapters tokenIndex =
     (if chapters = [] then Inr (- 1)
      else bsearch chapters tokenIndex 0 (int (length chapters) - 1) 0)"

text \<open>Chapter records with integer bounds, for examples.\<close>

definition mkChapter :: "string \<Rightarrow> int \<Rightarrow> int \<Rightarrow> ChapterMeta" where
  "mkChapter t s e = \<lparr>title = str t, startToken = num s, endToken = num e\<rparr>"

text \<open>
  The integer bounds of a chapter whose bounds are finite, and what every chapter of a
  normalised list satisfies: integer bounds, a start within the range of the clamping, an
  end that the formula of the loop leaves as it is, and a title that is not empty and has
  no white space at either end.
\<close>

definition startOf :: "ChapterMeta \<Rightarrow> int" where
  "startOf c = (case startToken c of Finite r \<Rightarrow> \<lfloor>r\<rfloor> | _ \<Rightarrow> 0)"

definition endOf :: "ChapterMeta \<Rightarrow> int" where
  "endOf c = (case endToken c of Finite r \<Rightarrow> \<lfloor>r\<rfloor> | _ \<Rightarrow> 0)"

definition normalized_chapter :: "int \<Rightarrow> ChapterMeta \<Rightarrow> bool" where
  "normalized_chapter tokenCount c \<longleftrightarrow>
     startToken c = num (startOf c) \<and> endToken c = num (endOf c)
     \<and> 0 < tokenCount \<and> 0 \<le> startOf c \<and> startOf c \<le> js_add_int tokenCount (- 1)
     \<and> endOf c = max (js_add_int (startOf c) 1) (min tokenCount (endOf c))
     \<and> title c \<noteq> [] \<and> trim (title c) = title c"

text \<open>The entry that the \<^verbatim>\<open>map\<close> step makes of a chapter that is normalised already.\<close>

definition reclamped :: "int \<Rightarrow> ChapterMeta \<Rightarrow> clamped" where
  "reclamped tokenCount c =
     \<lparr>c_title = title c, c_start = startOf c, c_end = max 0 (min tokenCount (endOf c))\<rparr>"

text \<open>
  The start that the specification gives a chapter: the declared start, when it is finite,
  floored and clamped to \<open>[0, tokenCount - 1]\<close>. The statement about the intervals is
  made with it.
\<close>

definition clamped_start :: "int \<Rightarrow> ChapterMeta \<Rightarrow> int option" where
  "clamped_start tokenCount r =
     (case startToken r of
        Finite rawStart \<Rightarrow> Some (max 0 (min (tokenCount - 1) \<lfloor>rawStart\<rfloor>))
      | _ \<Rightarrow> None)"

text \<open>Two overlapping chapters, and a chapter without a declared end before another.\<close>

definition overlapping :: "ChapterMeta list" where
  "overlapping = [mkChapter ''A'' 0 100, mkChapter ''B'' 50 100]"

definition open_ended :: "ChapterMeta list" where
  "open_ended = [\<lparr>title = str ''A'', startToken = num 0, endToken = NaN\<rparr>, mkChapter ''B'' 50 80]"

text \<open>A chapter without a declared end that starts at the token count \<open>2 ^ 54\<close>.\<close>

definition beyond_exact :: "ChapterMeta list" where
  "beyond_exact = [\<lparr>title = str ''A'', startToken = num (2 ^ 54), endToken = NaN\<rparr>]"

text \<open>The three chapters of the test suite of \<^verbatim>\<open>findChapterIndex\<close>.\<close>

definition three_chapters :: "ChapterMeta list" where
  "three_chapters =
     [mkChapter ''Chapter 1'' 0 10, mkChapter ''Chapter 2'' 10 20, mkChapter ''Chapter 3'' 20 30]"

section \<open>Font size of the focal-point layout (components/OrpWord.tsx)\<close>


section \<open>Chunked token store (src/storage/index.ts)\<close>

text \<open>
  The records of the key/value store are JSON texts. A text is represented by what
  \<^verbatim>\<open>JSON.parse\<close> makes of it: the empty string (which the code tests for with
  \<^verbatim>\<open>!raw\<close>), a text that is not JSON (\<^verbatim>\<open>JSON.parse\<close> throws a SyntaxError), or
  a well-formed text together with the value it denotes. \<^verbatim>\<open>JSON.stringify\<close> of an
  array of strings is the well-formed text denoting that array.
\<close>

datatype json =
    JNull
  | JBool bool
  | JNum rat
  | JStr jsstring
  | JArr "json list"
  | JObj "(jsstring \<times> json) list"

datatype raw_text = Empty | Malformed | Wellformed json

definition JSON_stringify :: "jsstring list \<Rightarrow> raw_text" where
  "JSON_stringify chunk = Wellformed (JArr (map JStr chunk))"

fun JSON_parse :: "raw_text \<Rightarrow> js_error + json" where
  "JSON_parse Empty = Inl SyntaxError"
| "JSON_parse Malformed = Inl SyntaxError"
| "JSON_parse (Wellformed v) = Inr v"

text \<open>AsyncStorage: a map from keys to stored texts.\<close>

type_synonym async_storage = "jsstring \<rightharpoonup> raw_text"

text \<open>
  \<^verbatim>\<open>tokenChunkKey\<close>. The constant \<^verbatim>\<open>TOKEN_CHUNK_PREFIX\<close> is declared in
  \<^verbatim>\<open>storage/keys.ts\<close> and is a parameter here.
\<close>

definition tokenChunkKey :: "jsstring \<Rightarrow> jsstring \<Rightarrow> nat \<Rightarrow> jsstring" where
  "tokenChunkKey prefix bookId chunkIndex = prefix @ bookId @ [95] @ digits chunkIndex"

text \<open>\<^verbatim>\<open>tokens.slice(start, end)\<close> for \<open>0 \<le> start \<le> end\<close>.\<close>

definition slice :: "'a list \<Rightarrow> nat \<Rightarrow> nat \<Rightarrow> 'a list" where
  "slice xs start end = take (end - start) (drop start xs)"

record chunk_info =
  chunkSize :: nat
  chunkCount :: nat

text \<open>The \<^verbatim>\<open>for\<close> loop of \<^verbatim>\<open>saveTokenChunks\<close>, from \<open>chunkIndex\<close> on.\<close>

function saveLoop ::
  "async_storage \<Rightarrow> jsstring \<Rightarrow> jsstring \<Rightarrow> jsstring list \<Rightarrow> nat \<Rightarrow> nat \<Rightarrow> nat \<Rightarrow> async_storage"
where
  "saveLoop store prefix bookId tokens csize totalChunks chunkIndex =
     (if chunkIndex < totalChunks then
        (let start = chunkIndex * csize;
             chunk = slice tokens start (start + csize)
         in saveLoop (store(tokenChunkKey prefix bookId chunkIndex \<mapsto> JSON_stringify chunk))
              prefix bookId tokens csize totalChunks (chunkIndex + 1))
      else store)"
  by pat_completeness auto
termination
  by (relation "measure (\<lambda>(store, prefix, bookId, tokens, csize, totalChunks, chunkIndex).
        totalChunks - chunkIndex)") auto

declare saveLoop.simps [simp del]

text \<open>
  \<^verbatim>\<open>saveTokenChunks\<close>, for a chunk size that is a natural number. With a chunk size of
  0 the quotient \<^verbatim>\<open>tokens.length / chunkSize\<close> is \<^verbatim>\<open>Infinity\<close> (the loop never
  ends) or \<^verbatim>\<open>NaN\<close>; the model returns \<open>None\<close> there.
\<close>

definition saveTokenChunks ::
  "async_storage \<Rightarrow> jsstring \<Rightarrow> jsstring \<Rightarrow> jsstring list \<Rightarrow> nat
     \<Rightarrow> (async_storage \<times> chunk_info) option"
where
  "saveTokenChunks store prefix bookId tokens csize =
     (if csize = 0 then None
      else
        (let totalChunks = nat \<lceil>(of_nat (length tokens) :: rat) / of_nat csize\<rceil>
         in Some (saveLoop store prefix bookId tokens csize totalChunks 0,
                  \<lparr>chunkSize = csize, chunkCount = totalChunks\<rparr>)))"

text \<open>
  \<^verbatim>\<open>loadTokenChunk\<close>. The result is \<open>Inl\<close> when the call raises and \<open>Inr\<close> of the
  returned value otherwise; \<open>JNull\<close> is \<^verbatim>\<open>null\<close>. The cast \<^verbatim>\<open>as string[]\<close> has no
  effect at run time.
\<close>

definition loadTokenChunk ::
  "async_storage \<Rightarrow> jsstring \<Rightarrow> jsstring \<Rightarrow> nat \<Rightarrow> js_error + json"
where
  "loadTokenChunk store prefix bookId chunkIndex =
     (case store (tokenChunkKey prefix bookId chunkIndex) of
        None \<Rightarrow> Inr JNull
      | Some raw \<Rightarrow>
          if raw = Empty then Inr JNull
          else (case JSON_parse raw of
                  Inl e \<Rightarrow> Inr JNull
                | Inr v \<Rightarrow> Inr v))"

section \<open>Resolving a token from the chunk cache (reader screen)\<close>

text \<open>The fields of \<^verbatim>\<open>BookMeta\<close> that the reader reads when it resolves a token.\<close>

record BookMeta =
  bm_id :: jsstring
  bm_tokenCount :: int
  bm_chunkSize :: int
  bm_chunkCount :: int

text \<open>
  The state of a reading session that \<^verbatim>\<open>resolveToken\<close> can reach: \<^verbatim>\<open>bookRef.current\<close>
  and \<^verbatim>\<open>chunkCacheRef.current\<close>, a \<^verbatim>\<open>Map\<close> from chunk index to chunk, kept in
  insertion order. The key/value store is not part of it.
\<close>

record session =
  bookRef :: "BookMeta option"
  chunkCache :: "(int \<times> jsstring list) list"

text \<open>
  \<^verbatim>\<open>tokenIndex % chunkSize\<close>: the remainder of the division truncated towards zero, with
  the sign of the dividend.
\<close>

definition js_rem :: "int \<Rightarrow> int \<Rightarrow> int" where
  "js_rem a b = sgn a * (\<bar>a\<bar> mod \<bar>b\<bar>)"

text \<open>
  \<^verbatim>\<open>resolveToken\<close>, returning the value and the session state afterwards. With a chunk
  size of 0 the chunk index is \<^verbatim>\<open>Infinity\<close> or \<^verbatim>\<open>NaN\<close>, which is no key of the
  cache. A chunk that is too short yields \<^verbatim>\<open>undefined\<close>, which \<^verbatim>\<open>?? null\<close> turns
  into \<^verbatim>\<open>null\<close> (\<open>None\<close>). Token indices and chunk sizes are integers below \<open>2 ^ 53\<close>; for
  them the floor of the binary64 quotient is the floor of the exact quotient, which the
  model takes.
\<close>

definition resolveToken :: "session \<Rightarrow> int \<Rightarrow> jsstring option \<times> session" where
  "resolveToken st tokenIndex =
     (case bookRef st of
        None \<Rightarrow> (None, st)
      | Some activeBook \<Rightarrow>
          if tokenIndex < 0 \<or> tokenIndex \<ge> bm_tokenCount activeBook then (None, st)
          else if bm_chunkSize activeBook = 0 then (None, st)
          else
            (let chunkIndex = \<lfloor>(of_int tokenIndex :: rat) / of_int (bm_chunkSize activeBook)\<rfloor>
             in case map_of (chunkCache st) chunkIndex of
                  None \<Rightarrow> (None, st)
                | Some chunk \<Rightarrow>
                    (let pos = js_rem tokenIndex (bm_chunkSize activeBook)
                     in if 0 \<le> pos \<and> nat pos < length chunk
                        then (Some (chunk ! nat pos), st)
                        else (None, st))))"

text \<open>
  What the specification calls a JSON token array: a JSON array all of whose elements are
  strings.
\<close>

fun is_token :: "json \<Rightarrow> bool" where
  "is_token (JStr s) = True"
| "is_token _ = False"

fun is_token_array :: "json \<Rightarrow> bool" where
  "is_token_array (JArr vs) = list_all is_token vs"
| "is_token_array _ = False"

text \<open>A session with a five-token book in chunks of two, of which chunk 1 is cached.\<close>

definition demo_book :: BookMeta where
  "demo_book = \<lparr>bm_id = str ''b1'', bm_tokenCount = 5, bm_chunkSize = 2, bm_chunkCount = 3\<rparr>"

definition demo_session :: session where
  "demo_session = \<lparr>bookRef = Some demo_book, chunkCache = [(1, [str ''c'', str ''d''])]\<rparr>"

section \<open>Tokenizer (src/parsing/tokenize.ts)\<close>

text \<open>
  A replacement \<^verbatim>\<open>replace(/[class]{n,}/g, repl)\<close>: every maximal run of characters of the
  class that has at least \<open>n \<ge> 1\<close> characters is replaced by \<open>repl\<close>; a shorter run stays.
\<close>

function replace_runs :: "(nat \<Rightarrow> bool) \<Rightarrow> nat \<Rightarrow> jsstring \<Rightarrow> jsstring \<Rightarrow> jsstring" where
  "replace_runs P n repl [] = []"
| "replace_runs P n repl (c # cs) =
     (if P c then
        (let run = c # takeWhile P cs
         in (if n \<le> length run then repl else run) @ replace_runs P n repl (dropWhile P cs))
      else c # replace_runs P n repl cs)"
  by pat_completeness auto
termination
  by (relation "measure (\<lambda>(P, n, repl, s). length s)")
    (auto simp: less_Suc_eq_le length_dropWhile_le)

text \<open>\<^verbatim>\<open>replace(/\r\n?/g, '\n')\<close>.\<close>

fun replace_cr :: "jsstring \<Rightarrow> jsstring" where
  "replace_cr [] = []"
| "replace_cr [c] = [if c = 13 then 10 else c]"
| "replace_cr (c # d # cs) =
     (if c = 13 \<and> d = 10 then 10 # replace_cr cs
      else if c = 13 then 10 # replace_cr (d # cs)
      else c # replace_cr (d # cs))"

definition is_newline :: "nat \<Rightarrow> bool" where
  "is_newline c \<longleftrightarrow> c = 10"

text \<open>The class \<^verbatim>\<open>[\t\f\v ]\<close>.\<close>

definition is_blank :: "nat \<Rightarrow> bool" where
  "is_blank c \<longleftrightarrow> c = 9 \<or> c = 12 \<or> c = 11 \<or> c = 32"

definition normalizeText :: "jsstring \<Rightarrow> jsstring" where
  "normalizeText text =
     trim (replace_runs is_newline 3 [10, 10]
             (replace_runs is_blank 1 [32] (replace_cr text)))"

text \<open>
  The classes of \<^verbatim>\<open>TOKEN_REGEX\<close> other than \<^verbatim>\<open>[\p{L}\p{N}]\<close>: the joiners
  \<^verbatim>\<open>[\-'] and U+2019\<close>, the trailing punctuation \<^verbatim>\<open>[.,!?;:] and U+2026\<close>, the closing
  brackets and quotes (U+201D, double quote, apostrophe, right parenthesis, right square
  bracket, right brace, U+00BB) and the opening ones (left parenthesis, left square bracket,
  left brace, U+201C, double quote, U+00AB).
\<close>

definition joiner :: "nat \<Rightarrow> bool" where
  "joiner c \<longleftrightarrow> c = 45 \<or> c = 8217 \<or> c = 39"

definition trailing_punct :: "nat \<Rightarrow> bool" where
  "trailing_punct c \<longleftrightarrow> c = 46 \<or> c = 44 \<or> c = 33 \<or> c = 63 \<or> c = 59 \<or> c = 58 \<or> c = 8230"

definition closing_mark :: "nat \<Rightarrow> bool" where
  "closing_mark c \<longleftrightarrow> c = 8221 \<or> c = 34 \<or> c = 39 \<or> c = 41 \<or> c = 93 \<or> c = 125 \<or> c = 187"

definition opening_mark :: "nat \<Rightarrow> bool" where
  "opening_mark c \<longleftrightarrow> c = 40 \<or> c = 91 \<or> c = 123 \<or> c = 8220 \<or> c = 34 \<or> c = 171"

text \<open>
  What is left of the text after the group \<^verbatim>\<open>(?:[joiner][\p{L}\p{N}]+)*\<close> has matched
  as often as it can: an iteration takes a joiner that a letter or number follows, and the
  letters and numbers after it.
\<close>

function after_joined :: "(nat \<Rightarrow> bool) \<Rightarrow> jsstring \<Rightarrow> jsstring" where
  "after_joined LN (j # l # r) =
     (if joiner j \<and> LN l then after_joined LN (dropWhile LN r) else j # l # r)"
| "after_joined LN [j] = [j]"
| "after_joined LN [] = []"
  by pat_completeness auto
termination
  by (relation "measure (\<lambda>(LN, s). length s)")
    (auto simp: less_Suc_eq_le intro: le_SucI length_dropWhile_le)

text \<open>
  What is left of the text after the first alternative of \<^verbatim>\<open>TOKEN_REGEX\<close> has matched,
  given the text after its first letter or number: the rest of the letters and numbers, the
  joined parts, the trailing punctuation and the closing brackets and quotes, each as long
  as possible.
\<close>

definition after_word :: "(nat \<Rightarrow> bool) \<Rightarrow> jsstring \<Rightarrow> jsstring" where
  "after_word LN cs =
     dropWhile closing_mark (dropWhile trailing_punct (after_joined LN (dropWhile LN cs)))"

text \<open>
  \<^verbatim>\<open>match(TOKEN_REGEX)\<close> with the flags \<^verbatim>\<open>g\<close> and \<^verbatim>\<open>u\<close>: all matches from left to
  right. At a letter or number the first alternative matches, and \<open>n\<close> is the number of
  characters it takes after the first; at an opening bracket or quote the second one; at
  any other character that is not white space the third one; white space is skipped.
\<close>

function matchAll :: "(nat \<Rightarrow> bool) \<Rightarrow> jsstring \<Rightarrow> jsstring list" where
  "matchAll LN [] = []"
| "matchAll LN (c # cs) =
     (if LN c then
        (let n = length cs - length (after_word LN cs)
         in (c # take n cs) # matchAll LN (drop n cs))
      else if opening_mark c then (c # takeWhile opening_mark cs) # matchAll LN (dropWhile opening_mark cs)
      else if \<not> is_space c then [c] # matchAll LN cs
      else matchAll LN cs)"
  by pat_completeness auto
termination
  by (relation "measure (\<lambda>(LN, s). length s)")
    (auto simp: less_Suc_eq_le length_dropWhile_le)

definition tokenizeSegment :: "(nat \<Rightarrow> bool) \<Rightarrow> jsstring \<Rightarrow> jsstring list" where
  "tokenizeSegment LN segment =
     (let prepared =
            trim (map (\<lambda>c. if c = 10 then 32 else c)
                    (replace_runs is_newline 2 [32, 10, 32] segment))
      in if prepared = [] then [] else matchAll LN prepared)"

definition tokenize :: "(nat \<Rightarrow> bool) \<Rightarrow> jsstring \<Rightarrow> jsstring list" where
  "tokenize LN text = tokenizeSegment LN (normalizeText text)"

text \<open>
  \<^verbatim>\<open>split(/\n\n+/)\<close>: the pieces between the maximal runs of two or more newlines;
  \<open>piece\<close> is the piece read so far.
\<close>

function split_paragraphs :: "jsstring \<Rightarrow> jsstring \<Rightarrow> jsstring list" where
  "split_paragraphs piece [] = [piece]"
| "split_paragraphs piece [c] = [piece @ [c]]"
| "split_paragraphs piece (c # d # cs) =
     (if c = 10 \<and> d = 10 then piece # split_paragraphs [] (dropWhile is_newline cs)
      else split_paragraphs (piece @ [c]) (d # cs))"
  by pat_completeness auto
termination
  by (relation "measure (\<lambda>(piece, s). length s)")
    (auto simp: less_Suc_eq_le intro: le_SucI length_dropWhile_le)

text \<open>
  The loop of \<^verbatim>\<open>tokenizeLargeText\<close> over what is left of the paragraphs, with the tokens
  pushed so far. The progress reports and the pauses of the loop do not touch the tokens.
\<close>

fun largeLoop :: "(nat \<Rightarrow> bool) \<Rightarrow> jsstring list \<Rightarrow> jsstring list \<Rightarrow> jsstring list" where
  "largeLoop LN [] tokens = tokens"
| "largeLoop LN (paragraph # rest) tokens =
     largeLoop LN rest
       (tokens @ tokenizeSegment LN paragraph @ (if rest \<noteq> [] then [[10]] else []))"

definition tokenizeLargeText :: "(nat \<Rightarrow> bool) \<Rightarrow> jsstring \<Rightarrow> jsstring list" where
  "tokenizeLargeText LN text =
     (let normalized = normalizeText text
      in if normalized = [] then []
         else largeLoop LN (split_paragraphs [] normalized) [])"

text \<open>
  The token sequences of consecutive paragraphs put together with one paragraph marker
  between each two of them; the statement about \<^verbatim>\<open>tokenizeLargeText\<close> is made with it.
\<close>

fun join_paragraphs :: "jsstring list list \<Rightarrow> jsstring list" where
  "join_paragraphs [] = []"
| "join_paragraphs [ts] = ts"
| "join_paragraphs (ts # us # rest) = ts @ [10] # join_paragraphs (us # rest)"

text \<open>The input of the tokenizer test: two paragraphs with a blank line between them.\<close>

definition two_paragraphs :: jsstring where
  "two_paragraphs = str ''Alpha first.'' @ [10, 10] @ str ''Beta second.''"

declare matchAll.simps [simp del] after_joined.simps [simp del] replace_runs.simps [simp del]
  split_paragraphs.simps [simp del]

section \<open>Properties of strings and numbers\<close>

lemma digits_nonempty: "digits n \<noteq> []"
  by (subst digits.simps) simp

lemma digits_inj: "digits n = digits m \<Longrightarrow> n = m"
proof (induction n arbitrary: m rule: digits.induct)
  case (1 n)
  show ?case
  proof (cases "n < 10")
    case small_n: True
    show ?thesis
    proof (cases "m < 10")
      case True
      with small_n "1.prems" show ?thesis
        by (simp add: digits.simps [of n] digits.simps [of m])
    next
      case False
      with small_n "1.prems" digits_nonempty [of "m div 10"] show ?thesis
        by (simp add: digits.simps [of n] digits.simps [of m])
    qed
  next
    case big_n: False
    show ?thesis
    proof (cases "m < 10")
      case True
      with big_n "1.prems" digits_nonempty [of "n div 10"] show ?thesis
        by (simp add: digits.simps [of n] digits.simps [of m])
    next
      case False
      with big_n "1.prems" have eq: "digits (n div 10) = digits (m div 10)"
        and r: "n mod 10 = m mod 10"
        by (simp_all add: digits.simps [of n] digits.simps [of m])
      from "1.IH" [OF big_n eq] have "n div 10 = m div 10" .
      with r show ?thesis
        by (metis div_mult_mod_eq)
    qed
  qed
qed

section \<open>Properties of the arithmetic\<close>

lemma pow2_powi: "pow2 e = 2 powi e"
  by (simp add: pow2_def power_int_def field_simps)

lemma pow2_pos: "0 < pow2 e"
  by (simp add: pow2_powi)

lemma pow2_add: "pow2 (a + b) = pow2 a * pow2 b"
  by (simp add: pow2_powi power_int_add)

lemma pow2_mono: "a \<le> b \<Longrightarrow> pow2 a \<le> pow2 b"
  by (simp add: pow2_powi power_int_increasing)

lemma pow2_strict_mono: "a < b \<Longrightarrow> pow2 a < pow2 b"
  by (simp add: pow2_powi power_int_strict_increasing)

lemma pow2_less_iff: "pow2 a < pow2 b \<longleftrightarrow> a < b"
proof
  assume l: "pow2 a < pow2 b"
  show "a < b"
  proof (rule ccontr)
    assume "\<not> a < b"
    then have "b \<le> a" by simp
    then have "pow2 b \<le> pow2 a" by (rule pow2_mono)
    with l show False by simp
  qed
next
  assume "a < b"
  then show "pow2 a < pow2 b" by (rule pow2_strict_mono)
qed

lemma pow2_nat: "0 \<le> e \<Longrightarrow> pow2 e = 2 ^ nat e"
  by (simp add: pow2_def)

lemma ilog2_bounds:
  assumes "0 < x"
  shows "pow2 (ilog2 x) \<le> x" and "x < pow2 (ilog2 x + 1)"
proof -
  obtain p q where pq: "quotient_of x = (p, q)"
    by (cases "quotient_of x")
  have q: "0 < q"
    by (rule quotient_of_denom_pos [OF pq])
  have x: "x = of_int p / of_int q"
    by (rule quotient_of_div [OF pq])
  from assms x q have p: "0 < p"
    by (simp add: zero_less_divide_iff)
  define a where "a = bitlen p"
  define b where "b = bitlen q"
  have a1: "1 \<le> a" and b1: "1 \<le> b"
    using p q bitlen_eq_zero_iff [of p] bitlen_eq_zero_iff [of q] bitlen_nonneg [of p] bitlen_nonneg [of q]
    by (simp_all add: a_def b_def)
  from bitlen_bounds [OF p] have "2 ^ nat (a - 1) \<le> p" "p < 2 ^ nat a"
    by (simp_all add: a_def)
  then have "(of_int (2 ^ nat (a - 1)) :: rat) \<le> of_int p" "(of_int p :: rat) < of_int (2 ^ nat a)"
    by (simp_all only: of_int_le_iff of_int_less_iff)
  then have pa: "pow2 (a - 1) \<le> of_int p" "of_int p < pow2 a"
    using a1 by (simp_all add: pow2_nat)
  from bitlen_bounds [OF q] have "2 ^ nat (b - 1) \<le> q" "q < 2 ^ nat b"
    by (simp_all add: b_def)
  then have "(of_int (2 ^ nat (b - 1)) :: rat) \<le> of_int q" "(of_int q :: rat) < of_int (2 ^ nat b)"
    by (simp_all only: of_int_le_iff of_int_less_iff)
  then have qb: "pow2 (b - 1) \<le> of_int q" "of_int q < pow2 b"
    using b1 by (simp_all add: pow2_nat)
  have qpos: "(0::rat) < of_int q" using q by simp
  have up: "x < pow2 (a - b + 1)"
  proof -
    have "of_int p < pow2 (a - b + 1) * pow2 (b - 1)"
      using pa(2) by (simp add: pow2_add [symmetric])
    also have "\<dots> \<le> pow2 (a - b + 1) * of_int q"
      using qb(1) pow2_pos [of "a - b + 1"] by simp
    finally show ?thesis
      using qpos by (simp add: x pos_divide_less_eq)
  qed
  have lo: "pow2 (a - b - 1) < x"
  proof -
    have "pow2 (a - b - 1) * of_int q < pow2 (a - b - 1) * pow2 b"
      using qb(2) pow2_pos [of "a - b - 1"] by simp
    also have "\<dots> = pow2 (a - 1)"
      by (simp add: pow2_add [symmetric])
    also have "\<dots> \<le> of_int p" by (rule pa(1))
    finally show ?thesis
      using qpos by (simp add: x pos_less_divide_eq)
  qed
  have k: "ilog2 x = (if pow2 (a - b) \<le> x then a - b else a - b - 1)"
    by (simp add: ilog2_def pq a_def b_def)
  show "pow2 (ilog2 x) \<le> x"
    using lo by (simp add: k)
  show "x < pow2 (ilog2 x + 1)"
    using up by (simp add: k)
qed


lemma round_ties_even_int: "round_ties_even (of_int m) = m"
  by (simp add: round_ties_even_def)

lemma round_ties_even_ge: "of_int m \<le> y \<Longrightarrow> m \<le> round_ties_even y"
proof -
  assume "of_int m \<le> y"
  then have "m \<le> \<lfloor>y\<rfloor>" by (simp add: le_floor_iff)
  then show ?thesis
    by (auto simp: round_ties_even_def Let_def)
qed


lemma fl64_pos_ge:
  assumes "0 < x"
  shows "pow2 (ilog2 x) \<le> fl64 x"
proof -
  define k where "k = ilog2 x"
  define e where "e = k - 52"
  define y where "y = x / pow2 e"
  have f: "fl64 x = of_int (round_ties_even y) * pow2 e"
    using assms by (simp add: fl64_def Let_def y_def e_def k_def)
  have ke: "pow2 k = pow2 52 * pow2 e"
    by (simp add: pow2_add [symmetric] e_def)
  have "pow2 k \<le> x" using ilog2_bounds(1) [OF assms] by (simp add: k_def)
  then have "pow2 52 \<le> y"
    using pow2_pos [of e] by (simp add: y_def ke pos_le_divide_eq)
  then have "of_int (2 ^ 52) \<le> y" by (simp add: pow2_def)
  then have "2 ^ 52 \<le> round_ties_even y" by (rule round_ties_even_ge)
  then have "(of_int (2 ^ 52) :: rat) \<le> of_int (round_ties_even y)"
    by (simp only: of_int_le_iff)
  then have "pow2 52 \<le> of_int (round_ties_even y)" by (simp add: pow2_def)
  then have "pow2 52 * pow2 e \<le> of_int (round_ties_even y) * pow2 e"
    using pow2_pos [of e] by (simp add: mult_right_mono)
  then have "pow2 k \<le> fl64 x" by (simp only: f ke)
  then show ?thesis by (simp only: k_def)
qed

lemma fl64_ge_one:
  assumes "1 \<le> x"
  shows "1 \<le> fl64 x"
proof -
  have x: "0 < x" using assms by simp
  have "pow2 0 \<le> x" using assms by (simp add: pow2_def)
  also have "x < pow2 (ilog2 x + 1)" by (rule ilog2_bounds(2) [OF x])
  finally have "0 \<le> ilog2 x" by (simp add: pow2_less_iff)
  then have "pow2 0 \<le> pow2 (ilog2 x)" by (rule pow2_mono)
  also have "\<dots> \<le> fl64 x" by (rule fl64_pos_ge [OF x])
  finally show ?thesis by (simp add: pow2_def)
qed

lemma fl64_safe_int:
  assumes "0 \<le> n" and "n \<le> 2 ^ 53"
  shows "fl64 (of_int n) = of_int n"
proof (cases "n = 0")
  case True
  then show ?thesis by (simp add: fl64_def)
next
  case False
  with assms have pos: "(0::rat) < of_int n" by simp
  define k where "k = ilog2 (of_int n)"
  define e where "e = k - 52"
  have f: "fl64 (of_int n) = of_int (round_ties_even (of_int n / pow2 e)) * pow2 e"
    using pos by (simp add: fl64_def Let_def e_def k_def)
  have "pow2 k \<le> of_int n" using ilog2_bounds(1) [OF pos] by (simp add: k_def)
  also have "(of_int n :: rat) \<le> of_int (2 ^ 53)" using assms(2) by (simp only: of_int_le_iff)
  finally have k53: "pow2 k \<le> pow2 53" by (simp add: pow2_def)
  have "k \<le> 53"
  proof (rule ccontr)
    assume "\<not> k \<le> 53"
    then have "pow2 53 < pow2 k" by (simp add: pow2_less_iff)
    with k53 show False by simp
  qed
  show ?thesis
  proof (cases "e \<le> 0")
    case True
    then have p: "pow2 e = 1 / 2 ^ nat (- e)"
      by (cases "e = 0") (simp_all add: pow2_def)
    have "of_int n / pow2 e = of_int (n * 2 ^ nat (- e))"
      by (simp add: p)
    then have "round_ties_even (of_int n / pow2 e) = n * 2 ^ nat (- e)"
      by (simp only: round_ties_even_int)
    then show ?thesis
      by (simp add: f) (simp add: p)
  next
    case False
    with \<open>k \<le> 53\<close> have e1: "e = 1" and k: "k = 53" by (simp_all add: e_def)
    from \<open>pow2 k \<le> of_int n\<close> k have "(of_int (2 ^ 53) :: rat) \<le> of_int n"
      by (simp add: pow2_def)
    then have "2 ^ 53 \<le> n" by (simp only: of_int_le_iff)
    with assms(2) have n: "n = 2 ^ 53" by simp
    have "of_int n / pow2 e = of_int (2 ^ 52)"
      by (simp add: n e1 pow2_def)
    then have "round_ties_even (of_int n / pow2 e) = 2 ^ 52"
      by (simp only: round_ties_even_int)
    then show ?thesis
      by (simp add: f) (simp add: n e1 pow2_def)
  qed
qed

lemma fl64_of_int:
  assumes "0 \<le> n"
  shows "\<exists>m. fl64 (of_int n) = of_int m"
proof (cases "n \<le> 2 ^ 53")
  case True
  from fl64_safe_int [OF assms True] show ?thesis by blast
next
  case False
  then have big: "2 ^ 53 < n" by simp
  then have pos: "(0::rat) < of_int n" by simp
  define k where "k = ilog2 (of_int n)"
  define e where "e = k - 52"
  have f: "fl64 (of_int n) = of_int (round_ties_even (of_int n / pow2 e)) * pow2 e"
    using pos by (simp add: fl64_def Let_def e_def k_def)
  from big have "(of_int (2 ^ 53) :: rat) < of_int n" by (simp only: of_int_less_iff)
  then have "pow2 53 < of_int n" by (simp add: pow2_def)
  also have "\<dots> < pow2 (k + 1)" using ilog2_bounds(2) [OF pos] by (simp add: k_def)
  finally have "0 \<le> e" by (simp add: pow2_less_iff e_def)
  then have "pow2 e = of_int (2 ^ nat e)" by (simp add: pow2_def)
  then have "fl64 (of_int n) = of_int (round_ties_even (of_int n / pow2 e) * 2 ^ nat e)"
    by (simp add: f)
  then show ?thesis by blast
qed

lemma js_add_int_safe:
  assumes "0 \<le> a + b" and "a + b \<le> 2 ^ 53"
  shows "js_add_int a b = a + b"
proof -
  have "js_add (of_int a) (of_int b) = fl64 (of_int (a + b))"
    by (simp add: js_add_def)
  also have "\<dots> = of_int (a + b)" by (rule fl64_safe_int [OF assms])
  finally show ?thesis by (simp add: js_add_int_def)
qed

lemma js_add_int_ge_one:
  assumes "1 \<le> a + b"
  shows "1 \<le> js_add_int a b"
proof -
  have "(1::rat) \<le> of_int (a + b)" using assms by (simp only: of_int_1_le_iff)
  then have "1 \<le> fl64 (of_int (a + b))" by (rule fl64_ge_one)
  then have "1 \<le> js_add (of_int a) (of_int b)" by (simp add: js_add_def)
  then show ?thesis by (simp add: js_add_int_def le_floor_iff)
qed

lemma js_add_int_nonneg:
  assumes "0 \<le> a + b"
  shows "0 \<le> js_add_int a b"
proof (cases "a + b = 0")
  case True
  then have "js_add (of_int a) (of_int b) = 0"
    by (simp add: js_add_def fl64_def flip: of_int_add)
  then show ?thesis by (simp add: js_add_int_def)
next
  case False
  with assms have "1 \<le> a + b" by simp
  from js_add_int_ge_one [OF this] show ?thesis by simp
qed



section \<open>Properties of the playback delay\<close>

lemma pause_test_iff:
  assumes disj: "\<forall>c. mark c \<longrightarrow> \<not> pause_closer c"
  shows "pause_test mark token \<longleftrightarrow> ends_with_mark mark token"
proof
  assume "pause_test mark token"
  then obtain i n where nn: "n \<in> set [1..<Suc (length token - i)]"
    and ms: "list_all mark (take n (drop i token))"
    and cs: "list_all pause_closer (drop (i + n) token)"
    unfolding pause_test_def list_ex_iff by blast
  from nn have n: "1 \<le> n" "n \<le> length token - i"
    by auto
  define pre where "pre = take i token"
  define marks where "marks = take n (drop i token)"
  define closers where "closers = drop (i + n) token"
  have tok: "token = pre @ marks @ closers"
    unfolding pre_def marks_def closers_def
    by (metis add.commute append_take_drop_id drop_drop)
  from n have ne: "marks \<noteq> []"
    by (auto simp: marks_def)
  from ms ne have "mark (last marks)"
    by (simp add: marks_def list_all_iff)
  with disj have nc: "\<not> pause_closer (last marks)" by blast
  have rt: "rev token = rev closers @ (rev marks @ rev pre)"
    by (simp add: tok)
  have "dropWhile pause_closer (rev closers @ (rev marks @ rev pre)) =
      dropWhile pause_closer (rev marks @ rev pre)"
    by (rule dropWhile_append2) (use cs in \<open>auto simp: closers_def list_all_iff\<close>)
  then have "dropWhile pause_closer (rev token) = dropWhile pause_closer (rev marks @ rev pre)"
    by (simp only: rt)
  also have "\<dots> = rev marks @ rev pre"
    using ne nc by (cases marks rule: rev_cases) simp_all
  finally have "rev (dropWhile pause_closer (rev token)) = pre @ marks"
    by simp
  with ne \<open>mark (last marks)\<close> show "ends_with_mark mark token"
    by (simp add: ends_with_mark_def)
next
  assume "ends_with_mark mark token"
  then have ne: "rev (dropWhile pause_closer (rev token)) \<noteq> []"
    and m: "mark (last (rev (dropWhile pause_closer (rev token))))"
    by (simp_all add: ends_with_mark_def Let_def)
  define stripped where "stripped = rev (dropWhile pause_closer (rev token))"
  define closers where "closers = rev (takeWhile pause_closer (rev token))"
  have "rev token = takeWhile pause_closer (rev token) @ dropWhile pause_closer (rev token)"
    by simp
  then have tok: "token = stripped @ closers"
    unfolding stripped_def closers_def by (metis rev_append rev_rev_ident)
  have cl: "list_all pause_closer closers"
    unfolding closers_def list_all_iff by (auto dest: set_takeWhileD)
  from ne obtain pre x where s: "stripped = pre @ [x]"
    unfolding stripped_def by (metis rev_exhaust)
  with m have x: "mark x" by (simp add: stripped_def)
  let ?i = "length pre"
  have i: "?i \<in> set [0..<Suc (length token)]"
    by (simp add: tok s)
  have len: "length token - ?i = Suc (length closers)"
    by (simp add: tok s)
  have n: "1 \<in> set [1..<Suc (length token - ?i)]"
    unfolding len set_upt atLeastLessThan_iff by linarith
  have "list_all mark (take 1 (drop ?i token)) \<and> list_all pause_closer (drop (?i + 1) token)"
    using x cl by (simp add: tok s)
  with i n show "pause_test mark token"
    unfolding pause_test_def list_ex_iff by blast
qed

lemma hard_disjoint: "\<forall>c. hard_mark c \<longrightarrow> \<not> pause_closer c"
  by (auto simp: hard_mark_def pause_closer_def)

lemma soft_disjoint: "\<forall>c. soft_mark c \<longrightarrow> \<not> pause_closer c"
  by (auto simp: soft_mark_def pause_closer_def)

lemma computeDelayMs_spec:
  "computeDelayMs LN token wpm True = js_mul (js_div 60000 (max 1 wpm)) (spec_multiplier LN token)"
  by (simp add: computeDelayMs_def spec_multiplier_def Let_def
      pause_test_iff [OF hard_disjoint] pause_test_iff [OF soft_disjoint])

lemma multiplier_word: "spec_multiplier ascii_alnum (str ''word!'') = js_add 1 (literal (7 / 10))"
  by (simp add: spec_multiplier_def str_def ends_with_mark_def pause_closer_def hard_mark_def
      soft_mark_def ascii_alnum_def utf16_length_def)
lemma multiplier_marker: "spec_multiplier ascii_alnum [10] = js_add 1 1"
  by (simp add: spec_multiplier_def ascii_alnum_def utf16_length_def)
lemma multiplier_long_word: "spec_multiplier ascii_alnum (str ''characteristically'') = js_add 1 (literal (1 / 10))"
  by (simp add: spec_multiplier_def str_def ends_with_mark_def pause_closer_def hard_mark_def
      soft_mark_def ascii_alnum_def utf16_length_def)
lemma delay_hard: "js_mul (js_div 60000 (max 1 300)) (js_add 1 (literal (7 / 10))) = 340" by code_simp
lemma delay_marker: "js_mul (js_div 60000 (max 1 300)) (js_add 1 1) = 400" by code_simp
lemma delay_long_word: "js_mul (js_div 60000 (max 1 300)) (js_add 1 (literal (1 / 10))) = 220 + 1 / 2 ^ 45" by code_simp

text \<open>
  Claim C4, as stated, fails at its third example: the delay of the token
  \<^verbatim>\<open>characteristically\<close> at 300 words per minute is not 220. The multiplier is the binary64
  number \<open>1 + 0.1\<close>, which is a little more than 1.1, and 200 times it rounds to the
  binary64 number next above 220.
\<close>

theorem computeDelayMs_rounding_counterexample:
  "computeDelayMs ascii_alnum (str ''characteristically'') 300 True \<noteq> 220"
proof -
  have "computeDelayMs ascii_alnum (str ''characteristically'') 300 True = 220 + 1 / 2 ^ 45"
    by (simp only: computeDelayMs_spec multiplier_long_word delay_long_word)
  then show ?thesis by simp
qed

text \<open>
  Claim C4, amended. For every token and every words-per-minute value, without punctuation
  pauses the delay is \<open>60000 / max 1 wpm\<close>, and with them it is that base times the
  multiplier of the specification: 1, plus 1 for the paragraph marker, else plus 0.7 for a
  token that ends, after its trailing closing brackets and quotes, with one of \<^verbatim>\<open>. ! ?\<close>,
  else plus 0.3 for one that so ends with one of \<^verbatim>\<open>; , :\<close>, and plus 0.1 when the
  letters and numbers of the token are more than 12 UTF-16 code units; every operation is
  rounded to binary64. At 300 words per minute the delay of \<^verbatim>\<open>word!\<close> is 340, that of
  the paragraph marker is 400, and that of \<^verbatim>\<open>characteristically\<close> is \<open>220 + 1 / 2 ^ 45\<close>
  (printed as 220.00000000000003), which is 220 only approximately.
\<close>

theorem computeDelayMs_formula:
  "computeDelayMs LN token wpm False = js_div 60000 (max 1 wpm)
   \<and> computeDelayMs LN token wpm True = js_mul (js_div 60000 (max 1 wpm)) (spec_multiplier LN token)
   \<and> computeDelayMs ascii_alnum (str ''word!'') 300 True = 340
   \<and> computeDelayMs ascii_alnum [10] 300 True = 400
   \<and> computeDelayMs ascii_alnum (str ''characteristically'') 300 True = 220 + 1 / 2 ^ 45"
proof (intro conjI)
  show "computeDelayMs LN token wpm False = js_div 60000 (max 1 wpm)"
    by (simp add: computeDelayMs_def)
  show "computeDelayMs LN token wpm True =
      js_mul (js_div 60000 (max 1 wpm)) (spec_multiplier LN token)"
    by (rule computeDelayMs_spec)
  show "computeDelayMs ascii_alnum (str ''word!'') 300 True = 340"
    by (simp only: computeDelayMs_spec multiplier_word delay_hard)
  show "computeDelayMs ascii_alnum [10] 300 True = 400"
    by (simp only: computeDelayMs_spec multiplier_marker delay_marker)
  show "computeDelayMs ascii_alnum (str ''characteristically'') 300 True = 220 + 1 / 2 ^ 45"
    by (simp only: computeDelayMs_spec multiplier_long_word delay_long_word)
qed

section \<open>Properties of the chapter index\<close>

lemma num_inj [simp]: "num a = num b \<longleftrightarrow> a = b"
  by (simp add: num_def)

lemma startOf_num: "startToken c = num s \<Longrightarrow> startOf c = s"
  by (simp add: startOf_def num_def)

lemma endOf_num: "endToken c = num e \<Longrightarrow> endOf c = e"
  by (simp add: endOf_def num_def)

lemma startOf_make [simp]:
  "startOf \<lparr>title = t, startToken = num s, endToken = e\<rparr> = s"
  by (simp add: startOf_def num_def)

lemma endOf_make [simp]:
  "endOf \<lparr>title = t, startToken = s, endToken = num e\<rparr> = e"
  by (simp add: endOf_def num_def)

lemma dropWhile_rtrim:
  assumes "a = [] \<or> \<not> P (hd a)"
  shows "dropWhile P (rev (dropWhile P (rev a))) = rev (dropWhile P (rev a))"
proof (cases "rev (dropWhile P (rev a))")
  case Nil
  show ?thesis unfolding Nil by simp
next
  case (Cons x xs)
  have "rev a = takeWhile P (rev a) @ dropWhile P (rev a)"
    by simp
  then have "a = rev (dropWhile P (rev a)) @ rev (takeWhile P (rev a))"
    by (metis rev_append rev_rev_ident)
  with Cons have "a = x # xs @ rev (takeWhile P (rev a))"
    by simp
  then have "a \<noteq> []" and "hd a = x"
    by (metis list.distinct(1), metis list.sel(1))
  with assms have "\<not> P x" by simp
  with Cons show ?thesis by simp
qed

lemma trim_idem: "trim (trim s) = trim s"
proof -
  let ?a = "dropWhile is_space s"
  have a: "?a = [] \<or> \<not> is_space (hd ?a)"
    using hd_dropWhile [of is_space s] by blast
  have "dropWhile is_space (trim s) = trim s"
    unfolding trim_def using a by (rule dropWhile_rtrim [of "dropWhile is_space s" is_space])
  then have "trim (trim s) = rev (dropWhile is_space (rev (trim s)))"
    by (simp add: trim_def)
  also have "\<dots> = trim s"
    by (simp add: trim_def)
  finally show ?thesis .
qed

lemma trim_fix:
  assumes "s \<noteq> []" and "\<not> is_space (hd s)" and "\<not> is_space (last s)"
  shows "trim s = s"
proof -
  from assms(1,2) have "dropWhile is_space s = s"
    by (cases s) simp_all
  moreover from assms(1,3) have "dropWhile is_space (rev s) = rev s"
    by (cases "rev s") (simp_all add: last_rev [symmetric])
  ultimately show ?thesis
    by (simp add: trim_def)
qed

lemma last_digits: "48 \<le> last (digits n) \<and> last (digits n) \<le> 57"
  by (subst digits.simps, subst (2) digits.simps) auto

lemma default_title_trimmed:
  "str ''Chapter '' @ digits k \<noteq> [] \<and> trim (str ''Chapter '' @ digits k) = str ''Chapter '' @ digits k"
proof -
  have l: "\<not> is_space (last (str ''Chapter '' @ digits k))"
    using last_digits [of k] by (simp add: digits_nonempty is_space_def)
  have h: "\<not> is_space (hd (str ''Chapter '' @ digits k))"
    by (simp add: str_def is_space_def)
  show ?thesis
    using trim_fix [OF _ h l] by (simp add: digits_nonempty)
qed

lemma clampChapter_Some:
  assumes "clampChapter tc r = Some x"
  shows "\<exists>rawStart. startToken r = Finite rawStart \<and> c_title x = title r
           \<and> c_start x = max 0 (min (js_add_int tc (- 1)) \<lfloor>rawStart\<rfloor>)
           \<and> c_end x = (case endToken r of Finite rawEnd \<Rightarrow> max 0 (min tc \<lfloor>rawEnd\<rfloor>) | _ \<Rightarrow> tc)"
  using assms by (auto simp: clampChapter_def split: jsnum.splits)

lemma set_map_filter_iff:
  "x \<in> set (List.map_filter f xs) \<longleftrightarrow> (\<exists>r\<in>set xs. f r = Some x)"
  by (induction xs) (auto simp: List.map_filter_simps split: option.splits)

lemma new_title_trimmed:
  "(if trim t \<noteq> [] then trim t else str ''Chapter '' @ digits k) \<noteq> []
   \<and> trim (if trim t \<noteq> [] then trim t else str ''Chapter '' @ digits k)
       = (if trim t \<noteq> [] then trim t else str ''Chapter '' @ digits k)"
  using default_title_trimmed [of k] by (simp add: trim_idem)

lemma normalizeLoop_skip:
  assumes "acc \<noteq> []" and "startToken (last acc) = num (c_start x)"
  shows "normalizeLoop tc (x # xs) acc = normalizeLoop tc xs acc"
  using assms by simp

lemma normalizeLoop_push:
  assumes "\<not> (acc \<noteq> [] \<and> startToken (last acc) = num (c_start x))"
    and "fallbackEnd = (case xs of [] \<Rightarrow> tc | next # _ \<Rightarrow> c_start next)"
    and "safeEnd = max (js_add_int (c_start x) 1)
        (min tc (if c_end x \<noteq> 0 then c_end x else fallbackEnd))"
    and "title' = (if trim (c_title x) \<noteq> [] then trim (c_title x)
        else str ''Chapter '' @ digits (length acc + 1))"
    and "new = \<lparr>title = title', startToken = num (c_start x), endToken = num safeEnd\<rparr>"
  shows "normalizeLoop tc (x # xs) acc = normalizeLoop tc xs (acc @ [new])"
  unfolding assms(2-5) using assms(1) by (simp only: normalizeLoop.simps Let_def if_False)

lemma safeEnd_fixed:
  fixes a tc x :: int
  shows "max a (min tc x) = max a (min tc (max a (min tc x)))"
  by (simp add: max_def min_def)

lemma normalizeLoop_elems:
  assumes "0 < tc"
    and "\<forall>x\<in>set xs. 0 \<le> c_start x \<and> c_start x \<le> js_add_int tc (- 1)"
    and "c \<in> set (normalizeLoop tc xs acc)"
  shows "c \<in> set acc \<or> normalized_chapter tc c"
  using assms(2,3)
proof (induction xs arbitrary: acc)
  case Nil
  then show ?case by simp
next
  case (Cons x xs)
  have rest: "\<forall>x\<in>set xs. 0 \<le> c_start x \<and> c_start x \<le> js_add_int tc (- 1)"
    using Cons.prems(1) by simp
  have x: "0 \<le> c_start x" "c_start x \<le> js_add_int tc (- 1)"
    using Cons.prems(1) by simp_all
  show ?case
  proof (cases "acc \<noteq> [] \<and> startToken (last acc) = num (c_start x)")
    case True
    then have ne: "acc \<noteq> []" and eq: "startToken (last acc) = num (c_start x)"
      by simp_all
    from Cons.prems(2) have "c \<in> set (normalizeLoop tc xs acc)"
      by (simp only: normalizeLoop_skip [OF ne eq])
    from Cons.IH [OF rest this] show ?thesis .
  next
    case False
    define fallbackEnd where "fallbackEnd = (case xs of [] \<Rightarrow> tc | next # _ \<Rightarrow> c_start next)"
    define safeEnd where "safeEnd = max (js_add_int (c_start x) 1)
        (min tc (if c_end x \<noteq> 0 then c_end x else fallbackEnd))"
    define title' where "title' = (if trim (c_title x) \<noteq> [] then trim (c_title x)
        else str ''Chapter '' @ digits (length acc + 1))"
    define new where "new = \<lparr>title = title', startToken = num (c_start x), endToken = num safeEnd\<rparr>"
    from Cons.prems(2) have "c \<in> set (normalizeLoop tc xs (acc @ [new]))"
      by (simp only: normalizeLoop_push [OF False fallbackEnd_def safeEnd_def title'_def new_def])
    from Cons.IH [OF rest this] consider "c \<in> set acc" | "c = new" | "normalized_chapter tc c"
      by auto
    then show ?thesis
    proof cases
      case 1
      then show ?thesis by simp
    next
      case 2
      have t: "title' \<noteq> [] \<and> trim title' = title'"
        unfolding title'_def by (rule new_title_trimmed)
      have e: "safeEnd = max (js_add_int (c_start x) 1) (min tc safeEnd)"
        unfolding safeEnd_def by (rule safeEnd_fixed)
      have "startOf new = c_start x" "endOf new = safeEnd"
        "startToken new = num (c_start x)" "endToken new = num safeEnd" "title new = title'"
        by (simp_all add: new_def)
      with x t e assms(1) have "normalized_chapter tc new"
        by (simp add: normalized_chapter_def)
      with 2 show ?thesis by simp
    next
      case 3
      then show ?thesis by simp
    qed
  qed
qed

lemma sorted_wrt_last:
  assumes "sorted_wrt P acc" and "a \<in> set acc"
  shows "a = last acc \<or> P a (last acc)"
proof (cases "acc = []")
  case True
  with assms(2) show ?thesis by simp
next
  case False
  then have "acc = butlast acc @ [last acc]" by simp
  with assms(1) have "sorted_wrt P (butlast acc @ [last acc])" by simp
  then have "\<forall>b\<in>set (butlast acc). P b (last acc)"
    by (simp add: sorted_wrt_append)
  moreover from assms(2) False have "a \<in> set (butlast acc) \<or> a = last acc"
    by (cases acc rule: rev_cases) auto
  ultimately show ?thesis by auto
qed

lemma normalizeLoop_sorted:
  assumes "sorted (map c_start xs)"
    and "sorted_wrt (\<lambda>a b. startOf a < startOf b) acc"
    and "\<forall>a\<in>set acc. startToken a = num (startOf a)"
    and "\<forall>a\<in>set acc. \<forall>x\<in>set xs. startOf a \<le> c_start x"
  shows "sorted_wrt (\<lambda>a b. startOf a < startOf b) (normalizeLoop tc xs acc)"
  using assms
proof (induction xs arbitrary: acc)
  case Nil
  then show ?case by simp
next
  case (Cons x xs)
  have s: "sorted (map c_start xs)" and le: "\<forall>y\<in>set xs. c_start x \<le> c_start y"
    using Cons.prems(1) by simp_all
  show ?case
  proof (cases "acc \<noteq> [] \<and> startToken (last acc) = num (c_start x)")
    case True
    then have ne: "acc \<noteq> []" and eq: "startToken (last acc) = num (c_start x)"
      by simp_all
    have "\<forall>a\<in>set acc. \<forall>x\<in>set xs. startOf a \<le> c_start x"
      using Cons.prems(4) by simp
    then have "sorted_wrt (\<lambda>a b. startOf a < startOf b) (normalizeLoop tc xs acc)"
      by (rule Cons.IH [OF s Cons.prems(2) Cons.prems(3)])
    then show ?thesis by (simp only: normalizeLoop_skip [OF ne eq])
  next
    case False
    define fallbackEnd where "fallbackEnd = (case xs of [] \<Rightarrow> tc | next # _ \<Rightarrow> c_start next)"
    define safeEnd where "safeEnd = max (js_add_int (c_start x) 1)
        (min tc (if c_end x \<noteq> 0 then c_end x else fallbackEnd))"
    define title' where "title' = (if trim (c_title x) \<noteq> [] then trim (c_title x)
        else str ''Chapter '' @ digits (length acc + 1))"
    define new where "new = \<lparr>title = title', startToken = num (c_start x), endToken = num safeEnd\<rparr>"
    have step: "normalizeLoop tc (x # xs) acc = normalizeLoop tc xs (acc @ [new])"
      by (rule normalizeLoop_push [OF False fallbackEnd_def safeEnd_def title'_def new_def])
    have new_start: "startOf new = c_start x" "startToken new = num (startOf new)"
      by (simp_all add: new_def)
    have below: "\<forall>a\<in>set acc. startOf a < c_start x"
    proof
      fix a assume a: "a \<in> set acc"
      then have ne: "acc \<noteq> []" by auto
      from ne Cons.prems(3) have "startToken (last acc) = num (startOf (last acc))"
        by simp
      with False ne have "startOf (last acc) \<noteq> c_start x"
        by auto
      moreover have "startOf (last acc) \<le> c_start x"
        using Cons.prems(4) ne by simp
      ultimately have "startOf (last acc) < c_start x" by simp
      with sorted_wrt_last [OF Cons.prems(2) a] show "startOf a < c_start x"
        by auto
    qed
    have "sorted_wrt (\<lambda>a b. startOf a < startOf b) (normalizeLoop tc xs (acc @ [new]))"
    proof (rule Cons.IH [OF s])
      show "sorted_wrt (\<lambda>a b. startOf a < startOf b) (acc @ [new])"
        using Cons.prems(2) below by (simp add: sorted_wrt_append new_start)
      show "\<forall>a\<in>set (acc @ [new]). startToken a = num (startOf a)"
        using Cons.prems(3) new_start by simp
      show "\<forall>a\<in>set (acc @ [new]). \<forall>x\<in>set xs. startOf a \<le> c_start x"
        using Cons.prems(4) le new_start by simp
    qed
    with step show ?thesis by (simp only:)
  qed
qed

lemma clamp_normalized:
  assumes "normalized_chapter tc c"
  shows "clampChapter tc c = Some (reclamped tc c)"
proof -
  from assms have s: "startToken c = Finite (of_int (startOf c))"
    and b: "0 \<le> startOf c" "startOf c \<le> js_add_int tc (- 1)"
    by (simp_all add: normalized_chapter_def num_def)
  from assms have e: "endToken c = Finite (of_int (endOf c))"
    by (simp add: normalized_chapter_def num_def)
  from b have "max 0 (min (js_add_int tc (- 1)) (startOf c)) = startOf c"
    by simp
  then show ?thesis
    by (simp add: clampChapter_def s e reclamped_def)
qed

lemma map_filter_normalized:
  assumes "\<forall>c\<in>set ys. normalized_chapter tc c"
  shows "List.map_filter (clampChapter tc) ys = map (reclamped tc) ys"
  using assms by (induction ys) (simp_all add: List.map_filter_simps clamp_normalized)

lemma normalizeLoop_fixpoint:
  assumes "\<forall>c\<in>set ys. normalized_chapter tc c"
    and "sorted_wrt (\<lambda>a b. startOf a < startOf b) ys"
    and "acc \<noteq> [] \<longrightarrow> (\<forall>y\<in>set ys. startToken (last acc) \<noteq> startToken y)"
  shows "normalizeLoop tc (map (reclamped tc) ys) acc = acc @ ys"
  using assms
proof (induction ys arbitrary: acc)
  case Nil
  then show ?case by simp
next
  case (Cons y ys)
  have y: "normalized_chapter tc y"
    using Cons.prems(1) by simp
  then have st: "startToken y = num (startOf y)" and en: "endToken y = num (endOf y)"
    and b: "0 < tc" "0 \<le> startOf y"
    and fx: "endOf y = max (js_add_int (startOf y) 1) (min tc (endOf y))"
    and t: "title y \<noteq> []" "trim (title y) = title y"
    by (simp_all add: normalized_chapter_def)
  have noskip: "\<not> (acc \<noteq> [] \<and> startToken (last acc) = num (c_start (reclamped tc y)))"
    using Cons.prems(3) st by (auto simp: reclamped_def)
  define fallbackEnd where
    "fallbackEnd = (case map (reclamped tc) ys of [] \<Rightarrow> tc | next # _ \<Rightarrow> c_start next)"
  define safeEnd where "safeEnd = max (js_add_int (c_start (reclamped tc y)) 1)
      (min tc (if c_end (reclamped tc y) \<noteq> 0 then c_end (reclamped tc y) else fallbackEnd))"
  define title' where "title' = (if trim (c_title (reclamped tc y)) \<noteq> []
      then trim (c_title (reclamped tc y)) else str ''Chapter '' @ digits (length acc + 1))"
  define new where
    "new = \<lparr>title = title', startToken = num (c_start (reclamped tc y)), endToken = num safeEnd\<rparr>"
  have step: "normalizeLoop tc (reclamped tc y # map (reclamped tc) ys) acc =
      normalizeLoop tc (map (reclamped tc) ys) (acc @ [new])"
    by (rule normalizeLoop_push [OF noskip fallbackEnd_def safeEnd_def title'_def new_def])
  have "safeEnd = endOf y"
  proof -
    define a where "a = js_add_int (startOf y) 1"
    have a: "1 \<le> a"
      unfolding a_def using b(2) by (intro js_add_int_ge_one) simp
    from fx have fx': "endOf y = max a (min tc (endOf y))"
      by (simp only: a_def)
    with a b(1) have pos: "0 < min tc (endOf y)" by linarith
    then have ce: "c_end (reclamped tc y) = min tc (endOf y)"
      by (simp add: reclamped_def)
    have cs: "c_start (reclamped tc y) = startOf y"
      by (simp add: reclamped_def)
    from pos have ne: "min tc (endOf y) \<noteq> 0" by linarith
    have "safeEnd = max a (min tc (min tc (endOf y)))"
      unfolding safeEnd_def cs ce a_def by (simp only: ne not_False_eq_True if_True)
    also have "\<dots> = max a (min tc (endOf y))" by simp
    also have "\<dots> = endOf y" by (rule fx' [symmetric])
    finally show ?thesis .
  qed
  moreover have "title' = title y"
    using t by (simp add: title'_def reclamped_def)
  ultimately have new: "new = y"
    by (simp add: new_def reclamped_def st [symmetric] en [symmetric])
  have rest: "\<forall>c\<in>set ys. normalized_chapter tc c"
    and srt: "sorted_wrt (\<lambda>a b. startOf a < startOf b) ys"
    and above: "\<forall>z\<in>set ys. startOf y < startOf z"
    using Cons.prems(1,2) by simp_all
  have distinct: "acc @ [y] \<noteq> [] \<longrightarrow> (\<forall>z\<in>set ys. startToken (last (acc @ [y])) \<noteq> startToken z)"
  proof (intro impI ballI)
    fix z assume z: "z \<in> set ys"
    with rest have "startToken z = num (startOf z)"
      by (simp add: normalized_chapter_def)
    moreover from above z have "startOf y \<noteq> startOf z" by auto
    ultimately show "startToken (last (acc @ [y])) \<noteq> startToken z"
      using st by simp
  qed
  have "normalizeLoop tc (map (reclamped tc) ys) (acc @ [y]) = (acc @ [y]) @ ys"
    by (rule Cons.IH [OF rest srt distinct])
  with step new show ?case
    by simp
qed

lemma normalizeChapters_fixpoint:
  assumes "\<forall>c\<in>set ys. normalized_chapter tc c"
    and "sorted_wrt (\<lambda>a b. startOf a < startOf b) ys"
  shows "normalizeChapters ys tc = ys"
proof (cases "ys = [] \<or> tc \<le> 0")
  case True
  show ?thesis
  proof (cases "ys = []")
    case True
    then show ?thesis by (simp add: normalizeChapters_def)
  next
    case False
    then obtain c where "c \<in> set ys" by (cases ys) auto
    with assms(1) have "0 < tc"
      by (auto simp: normalized_chapter_def)
    with True False show ?thesis by simp
  qed
next
  case False
  have "sorted (map c_start (map (reclamped tc) ys))"
  proof -
    have "sorted_wrt (\<lambda>a b. startOf a \<le> startOf b) ys"
      by (rule sorted_wrt_mono_rel [OF _ assms(2)]) simp
    then show ?thesis
      by (simp add: sorted_map reclamped_def sorted_wrt_map comp_def)
  qed
  then have "sort_key c_start (map (reclamped tc) ys) = map (reclamped tc) ys"
    by (rule sort_key_id_if_sorted)
  moreover have "normalizeLoop tc (map (reclamped tc) ys) [] = [] @ ys"
    by (rule normalizeLoop_fixpoint [OF assms]) simp
  ultimately show ?thesis
    using False by (simp add: normalizeChapters_def map_filter_normalized [OF assms(1)])
qed

lemma clamped_range:
  assumes "0 < tc" and "x \<in> set (sort_key c_start (List.map_filter (clampChapter tc) L))"
  shows "0 \<le> c_start x \<and> c_start x \<le> js_add_int tc (- 1)"
proof -
  from assms(2) obtain r where "clampChapter tc r = Some x"
    by (auto simp: set_map_filter_iff)
  from clampChapter_Some [OF this]
  have "\<exists>rawStart::rat. c_start x = max 0 (min (js_add_int tc (- 1)) \<lfloor>rawStart\<rfloor>)"
    by blast
  then obtain rawStart :: rat where
    "c_start x = max 0 (min (js_add_int tc (- 1)) \<lfloor>rawStart\<rfloor>)" ..
  moreover have "0 \<le> js_add_int tc (- 1)"
    using assms(1) by (intro js_add_int_nonneg) simp
  ultimately show ?thesis by simp
qed

lemma normalizeChapters_normalized:
  assumes "c \<in> set (normalizeChapters L tc)"
  shows "normalized_chapter tc c"
proof -
  from assms have pos: "0 < tc" and
    c: "c \<in> set (normalizeLoop tc (sort_key c_start (List.map_filter (clampChapter tc) L)) [])"
    by (simp_all add: normalizeChapters_def split: if_splits)
  have "\<forall>x\<in>set (sort_key c_start (List.map_filter (clampChapter tc) L)).
      0 \<le> c_start x \<and> c_start x \<le> js_add_int tc (- 1)"
    using clamped_range [OF pos] by blast
  from normalizeLoop_elems [OF pos this c] show ?thesis
    by simp
qed

lemma normalizeChapters_sorted:
  "sorted_wrt (\<lambda>a b. startOf a < startOf b) (normalizeChapters L tc)"
proof (cases "L = [] \<or> tc \<le> 0")
  case True
  then show ?thesis by (simp add: normalizeChapters_def)
next
  case False
  have "sorted_wrt (\<lambda>a b. startOf a < startOf b)
      (normalizeLoop tc (sort_key c_start (List.map_filter (clampChapter tc) L)) [])"
    by (rule normalizeLoop_sorted) (simp_all add: sorted_sort_key)
  with False show ?thesis
    by (simp add: normalizeChapters_def)
qed

text \<open>
  Claim C7. \<^verbatim>\<open>normalizeChapters\<close> is idempotent: for every chapter list and every token
  count, normalising the normalised list again with the same token count gives the same list,
  element for element.
\<close>

theorem normalizeChapters_idempotent:
  "normalizeChapters (normalizeChapters L n) n = normalizeChapters L n"
  by (rule normalizeChapters_fixpoint)
    (simp_all add: normalizeChapters_normalized normalizeChapters_sorted)

lemma normalizeLoop_acc: "set acc \<subseteq> set (normalizeLoop tc xs acc)"
proof (induction xs arbitrary: acc)
  case Nil
  show ?case by simp
next
  case (Cons x xs)
  show ?case
  proof (cases "acc \<noteq> [] \<and> startToken (last acc) = num (c_start x)")
    case True
    then have ne: "acc \<noteq> []" and eq: "startToken (last acc) = num (c_start x)"
      by simp_all
    show ?thesis
      unfolding normalizeLoop_skip [OF ne eq] by (rule Cons.IH)
  next
    case False
    define fallbackEnd where "fallbackEnd = (case xs of [] \<Rightarrow> tc | next # _ \<Rightarrow> c_start next)"
    define safeEnd where "safeEnd = max (js_add_int (c_start x) 1)
        (min tc (if c_end x \<noteq> 0 then c_end x else fallbackEnd))"
    define title' where "title' = (if trim (c_title x) \<noteq> [] then trim (c_title x)
        else str ''Chapter '' @ digits (length acc + 1))"
    define new where "new = \<lparr>title = title', startToken = num (c_start x), endToken = num safeEnd\<rparr>"
    have "set (acc @ [new]) \<subseteq> set (normalizeLoop tc xs (acc @ [new]))"
      by (rule Cons.IH)
    then show ?thesis
      unfolding normalizeLoop_push [OF False fallbackEnd_def safeEnd_def title'_def new_def]
      by simp
  qed
qed

lemma normalizeLoop_covers:
  assumes "x \<in> set xs"
  shows "\<exists>c\<in>set (normalizeLoop tc xs acc). startOf c = c_start x"
  using assms
proof (induction xs arbitrary: acc)
  case Nil
  then show ?case by simp
next
  case (Cons y ys)
  show ?case
  proof (cases "acc \<noteq> [] \<and> startToken (last acc) = num (c_start y)")
    case True
    then have ne: "acc \<noteq> []" and eq: "startToken (last acc) = num (c_start y)"
      by simp_all
    show ?thesis
    proof (cases "x = y")
      case True
      from ne have "last acc \<in> set acc" by simp
      with normalizeLoop_acc [of acc tc ys] have "last acc \<in> set (normalizeLoop tc ys acc)"
        by blast
      moreover have "startOf (last acc) = c_start x"
        using startOf_num [OF eq] True by simp
      ultimately show ?thesis
        unfolding normalizeLoop_skip [OF ne eq] by blast
    next
      case False
      with Cons.prems have "x \<in> set ys" by simp
      from Cons.IH [OF this] show ?thesis
        unfolding normalizeLoop_skip [OF ne eq] .
    qed
  next
    case False
    define fallbackEnd where "fallbackEnd = (case ys of [] \<Rightarrow> tc | next # _ \<Rightarrow> c_start next)"
    define safeEnd where "safeEnd = max (js_add_int (c_start y) 1)
        (min tc (if c_end y \<noteq> 0 then c_end y else fallbackEnd))"
    define title' where "title' = (if trim (c_title y) \<noteq> [] then trim (c_title y)
        else str ''Chapter '' @ digits (length acc + 1))"
    define new where "new = \<lparr>title = title', startToken = num (c_start y), endToken = num safeEnd\<rparr>"
    note step = normalizeLoop_push [OF False fallbackEnd_def safeEnd_def title'_def new_def]
    show ?thesis
    proof (cases "x = y")
      case True
      have "new \<in> set (acc @ [new])" by simp
      with normalizeLoop_acc [of "acc @ [new]" tc ys]
      have "new \<in> set (normalizeLoop tc ys (acc @ [new]))" by blast
      moreover have "startOf new = c_start x"
        using True by (simp add: new_def)
      ultimately show ?thesis
        unfolding step by blast
    next
      case False
      with Cons.prems have "x \<in> set ys" by simp
      from Cons.IH [OF this] show ?thesis
        unfolding step .
    qed
  qed
qed

lemma normalizeLoop_first:
  assumes "sorted (map c_start xs)"
    and "acc \<noteq> [] \<longrightarrow> startToken (last acc) = num (startOf (last acc))
           \<and> (\<forall>x\<in>set xs. startOf (last acc) \<le> c_start x)"
    and "c \<in> set (normalizeLoop tc xs acc)"
  shows "c \<in> set acc \<or>
         ((acc \<noteq> [] \<longrightarrow> startOf (last acc) < startOf c) \<and>
          (\<exists>x. List.find (\<lambda>y. c_start y = startOf c) xs = Some x
             \<and> (trim (c_title x) \<noteq> [] \<longrightarrow> title c = trim (c_title x))
             \<and> (c_end x \<noteq> 0 \<longrightarrow>
                  endOf c = max (js_add_int (c_start x) 1) (min tc (c_end x)))))"
  using assms
proof (induction xs arbitrary: acc)
  case Nil
  then show ?case by simp
next
  case (Cons y ys)
  have s: "sorted (map c_start ys)" and le: "\<forall>z\<in>set ys. c_start y \<le> c_start z"
    using Cons.prems(1) by simp_all
  show ?case
  proof (cases "acc \<noteq> [] \<and> startToken (last acc) = num (c_start y)")
    case True
    then have ne: "acc \<noteq> []" and eq: "startToken (last acc) = num (c_start y)"
      by simp_all
    have ly: "startOf (last acc) = c_start y"
      by (rule startOf_num [OF eq])
    have inv: "acc \<noteq> [] \<longrightarrow> startToken (last acc) = num (startOf (last acc))
           \<and> (\<forall>x\<in>set ys. startOf (last acc) \<le> c_start x)"
      using Cons.prems(2) by simp
    from Cons.prems(3) have "c \<in> set (normalizeLoop tc ys acc)"
      by (simp only: normalizeLoop_skip [OF ne eq])
    from Cons.IH [OF s inv this] show ?thesis
    proof
      assume "c \<in> set acc"
      then show ?thesis ..
    next
      assume r: "(acc \<noteq> [] \<longrightarrow> startOf (last acc) < startOf c) \<and>
          (\<exists>x. List.find (\<lambda>y. c_start y = startOf c) ys = Some x
             \<and> (trim (c_title x) \<noteq> [] \<longrightarrow> title c = trim (c_title x))
             \<and> (c_end x \<noteq> 0 \<longrightarrow>
                  endOf c = max (js_add_int (c_start x) 1) (min tc (c_end x))))"
      with ne ly have "c_start y \<noteq> startOf c" by simp
      then have "List.find (\<lambda>z. c_start z = startOf c) (y # ys) =
          List.find (\<lambda>z. c_start z = startOf c) ys"
        by simp
      with r show ?thesis by simp
    qed
  next
    case False
    define fallbackEnd where "fallbackEnd = (case ys of [] \<Rightarrow> tc | next # _ \<Rightarrow> c_start next)"
    define safeEnd where "safeEnd = max (js_add_int (c_start y) 1)
        (min tc (if c_end y \<noteq> 0 then c_end y else fallbackEnd))"
    define title' where "title' = (if trim (c_title y) \<noteq> [] then trim (c_title y)
        else str ''Chapter '' @ digits (length acc + 1))"
    define new where "new = \<lparr>title = title', startToken = num (c_start y), endToken = num safeEnd\<rparr>"
    note step = normalizeLoop_push [OF False fallbackEnd_def safeEnd_def title'_def new_def]
    have new: "startOf new = c_start y" "startToken new = num (startOf new)"
      "endOf new = safeEnd" "title new = title'"
      by (simp_all add: new_def)
    have before: "acc \<noteq> [] \<longrightarrow> startOf (last acc) < c_start y"
    proof
      assume ne: "acc \<noteq> []"
      with Cons.prems(2) have st: "startToken (last acc) = num (startOf (last acc))"
        and "startOf (last acc) \<le> c_start y"
        by simp_all
      moreover from False ne st have "startOf (last acc) \<noteq> c_start y"
        by auto
      ultimately show "startOf (last acc) < c_start y" by simp
    qed
    have inv: "acc @ [new] \<noteq> [] \<longrightarrow> startToken (last (acc @ [new])) = num (startOf (last (acc @ [new])))
           \<and> (\<forall>x\<in>set ys. startOf (last (acc @ [new])) \<le> c_start x)"
      using le new by simp
    from Cons.prems(3) have "c \<in> set (normalizeLoop tc ys (acc @ [new]))"
      by (simp only: step)
    from Cons.IH [OF s inv this] consider "c \<in> set acc" | "c = new"
      | "startOf new < startOf c \<and>
          (\<exists>x. List.find (\<lambda>y. c_start y = startOf c) ys = Some x
             \<and> (trim (c_title x) \<noteq> [] \<longrightarrow> title c = trim (c_title x))
             \<and> (c_end x \<noteq> 0 \<longrightarrow>
                  endOf c = max (js_add_int (c_start x) 1) (min tc (c_end x))))"
      by auto
    then show ?thesis
    proof cases
      case 1
      then show ?thesis ..
    next
      case 2
      have f: "List.find (\<lambda>z. c_start z = startOf c) (y # ys) = Some y"
        using 2 new(1) by simp
      have t: "trim (c_title y) \<noteq> [] \<longrightarrow> title c = trim (c_title y)"
        using 2 by (simp add: new(4) title'_def)
      have e: "c_end y \<noteq> 0 \<longrightarrow> endOf c = max (js_add_int (c_start y) 1) (min tc (c_end y))"
        using 2 by (simp add: new(3) safeEnd_def)
      have b: "acc \<noteq> [] \<longrightarrow> startOf (last acc) < startOf c"
        using before 2 new(1) by simp
      from f t e b show ?thesis by blast
    next
      case 3
      then have lt: "c_start y < startOf c" by (simp add: new(1))
      then have "List.find (\<lambda>z. c_start z = startOf c) (y # ys) =
          List.find (\<lambda>z. c_start z = startOf c) ys"
        by simp
      moreover from before lt have "acc \<noteq> [] \<longrightarrow> startOf (last acc) < startOf c"
        by auto
      ultimately show ?thesis using 3 by simp
    qed
  qed
qed

lemma find_filter_hd: "List.find P xs = (case filter P xs of [] \<Rightarrow> None | x # _ \<Rightarrow> Some x)"
  by (induction xs) simp_all

lemma find_sort_key: "List.find (\<lambda>y. f y = k) (sort_key f xs) = List.find (\<lambda>y. f y = k) xs"
  by (simp only: find_filter_hd sort_key_stable)

lemma find_map_filter:
  assumes "List.find Q (List.map_filter f L) = Some x"
  shows "\<exists>r. List.find (\<lambda>r. case f r of None \<Rightarrow> False | Some y \<Rightarrow> Q y) L = Some r \<and> f r = Some x"
  using assms
proof (induction L)
  case Nil
  then show ?case by (simp add: List.map_filter_simps)
next
  case (Cons a L)
  show ?case
  proof (cases "f a")
    case None
    with Cons show ?thesis by (simp add: List.map_filter_simps)
  next
    case (Some y)
    show ?thesis
    proof (cases "Q y")
      case True
      with Some Cons.prems have "x = y" by (simp add: List.map_filter_simps)
      with Some True show ?thesis by simp
    next
      case False
      with Some Cons show ?thesis by (simp add: List.map_filter_simps)
    qed
  qed
qed

lemma clamped_start_exact:
  assumes "0 < tc" and "tc \<le> 2 ^ 53"
  shows "(case clampChapter tc r of None \<Rightarrow> False | Some y \<Rightarrow> c_start y = s)
         \<longleftrightarrow> clamped_start tc r = Some s"
proof -
  have "js_add_int tc (- 1) = tc + - 1"
    using assms by (intro js_add_int_safe) simp_all
  then show ?thesis
    by (auto simp: clampChapter_def clamped_start_def split: jsnum.splits)
qed

lemma normalized_bounds:
  assumes "normalized_chapter tc c" and "tc \<le> 2 ^ 53"
  shows "0 \<le> startOf c" "startOf c < endOf c" "endOf c \<le> tc" "js_add_int (startOf c) 1 = startOf c + 1"
proof -
  from assms(1) have pos: "0 < tc" and s: "0 \<le> startOf c" "startOf c \<le> js_add_int tc (- 1)"
    and e: "endOf c = max (js_add_int (startOf c) 1) (min tc (endOf c))"
    by (simp_all add: normalized_chapter_def)
  have "js_add_int tc (- 1) = tc + - 1"
    using pos assms(2) by (intro js_add_int_safe) simp_all
  with s have le: "startOf c + 1 \<le> tc" by simp
  show a: "js_add_int (startOf c) 1 = startOf c + 1"
    using s(1) le assms(2) by (intro js_add_int_safe) simp_all
  show "0 \<le> startOf c" by (rule s(1))
  from e a have e': "endOf c = max (startOf c + 1) (min tc (endOf c))" by simp
  then show "startOf c < endOf c" by linarith
  from e' le show "endOf c \<le> tc" by linarith
qed

lemma normalizeChapters_source:
  assumes "0 < tc" and "tc \<le> 2 ^ 53" and "c \<in> set (normalizeChapters L tc)"
  shows "\<exists>r. List.find (\<lambda>r. clamped_start tc r = Some (startOf c)) L = Some r
           \<and> (trim (title r) \<noteq> [] \<longrightarrow> title c = trim (title r))
           \<and> (\<forall>rawEnd. endToken r = Finite rawEnd \<and> 1 \<le> rawEnd
                 \<longrightarrow> endOf c = max (startOf c + 1) (min tc \<lfloor>rawEnd\<rfloor>))"
proof -
  let ?cl = "List.map_filter (clampChapter tc) L"
  let ?xs = "sort_key c_start ?cl"
  from assms(3) have c: "c \<in> set (normalizeLoop tc ?xs [])"
    by (simp add: normalizeChapters_def split: if_splits)
  have "sorted (map c_start ?xs)" by (rule sorted_sort_key)
  from normalizeLoop_first [OF this _ c] obtain x where
    f: "List.find (\<lambda>y. c_start y = startOf c) ?xs = Some x"
    and t: "trim (c_title x) \<noteq> [] \<longrightarrow> title c = trim (c_title x)"
    and e: "c_end x \<noteq> 0 \<longrightarrow> endOf c = max (js_add_int (c_start x) 1) (min tc (c_end x))"
    by auto
  from f have "List.find (\<lambda>y. c_start y = startOf c) ?cl = Some x"
    by (simp only: find_sort_key)
  from find_map_filter [OF this] obtain r where
    fr: "List.find (\<lambda>r. case clampChapter tc r of None \<Rightarrow> False | Some y \<Rightarrow> c_start y = startOf c) L = Some r"
    and cl: "clampChapter tc r = Some x"
    by blast
  have found: "List.find (\<lambda>r. clamped_start tc r = Some (startOf c)) L = Some r"
    using fr by (simp only: clamped_start_exact [OF assms(1,2)])
  from f have sx: "c_start x = startOf c"
    by (auto simp: find_Some_iff)
  from clampChapter_Some [OF cl] have ct: "c_title x = title r"
    and ce: "c_end x = (case endToken r of Finite rawEnd \<Rightarrow> max 0 (min tc \<lfloor>rawEnd\<rfloor>) | _ \<Rightarrow> tc)"
    by auto
  have a: "js_add_int (startOf c) 1 = startOf c + 1"
    by (rule normalized_bounds(4) [OF normalizeChapters_normalized [OF assms(3)] assms(2)])
  have "\<forall>rawEnd. endToken r = Finite rawEnd \<and> 1 \<le> rawEnd
          \<longrightarrow> endOf c = max (startOf c + 1) (min tc \<lfloor>rawEnd\<rfloor>)"
  proof (intro allI impI)
    fix rawEnd assume h: "endToken r = Finite rawEnd \<and> 1 \<le> rawEnd"
    define d where "d = \<lfloor>rawEnd\<rfloor>"
    from h have f1: "1 \<le> d" by (simp add: d_def le_floor_iff)
    from h ce have "c_end x = max 0 (min tc d)" by (simp add: d_def)
    with f1 assms(1) have ce': "c_end x = min tc d" and "c_end x \<noteq> 0"
      by simp_all
    with e have "endOf c = max (js_add_int (c_start x) 1) (min tc (min tc d))"
      by simp
    then show "endOf c = max (startOf c + 1) (min tc \<lfloor>rawEnd\<rfloor>)"
      by (simp add: sx a d_def)
  qed
  with found t ct show ?thesis by auto
qed

lemma normalizeChapters_covers:
  assumes "0 < tc" and "tc \<le> 2 ^ 53" and "r \<in> set L" and "clamped_start tc r = Some s"
  shows "\<exists>c\<in>set (normalizeChapters L tc). startOf c = s"
proof -
  from assms(4) have "case clampChapter tc r of None \<Rightarrow> False | Some y \<Rightarrow> c_start y = s"
    by (simp only: clamped_start_exact [OF assms(1,2)])
  then obtain x where cl: "clampChapter tc r = Some x" and sx: "c_start x = s"
    by (auto split: option.splits)
  from assms(3) cl have "x \<in> set (sort_key c_start (List.map_filter (clampChapter tc) L))"
    by (auto simp: set_map_filter_iff)
  from normalizeLoop_covers [OF this, of tc "[]"] sx
  have "\<exists>c\<in>set (normalizeLoop tc (sort_key c_start (List.map_filter (clampChapter tc) L)) []). startOf c = s"
    by simp
  moreover from assms(3) have "L \<noteq> []" by auto
  ultimately show ?thesis
    using assms(1) by (simp add: normalizeChapters_def)
qed

lemma beyond_exact_minus: "js_add_int (2 ^ 54) (- 1) = 2 ^ 54"
  by code_simp

lemma beyond_exact_plus: "js_add_int (2 ^ 54) 1 = 2 ^ 54"
  by code_simp

lemma normalize_overlapping:
  "normalizeChapters overlapping 100 = [mkChapter ''A'' 0 100, mkChapter ''B'' 50 100]"
  by (simp add: normalizeChapters_def overlapping_def mkChapter_def clampChapter_def
      List.map_filter_def num_def trim_def is_space_def str_def js_add_int_safe)

lemma normalize_open_ended:
  "normalizeChapters open_ended 100 = [mkChapter ''A'' 0 100, mkChapter ''B'' 50 80]"
  by (simp add: normalizeChapters_def open_ended_def mkChapter_def clampChapter_def
      List.map_filter_def num_def trim_def is_space_def str_def js_add_int_safe)

lemma normalize_beyond_exact:
  "normalizeChapters beyond_exact (2 ^ 54) =
     [\<lparr>title = str ''A'', startToken = num (2 ^ 54), endToken = num (2 ^ 54)\<rparr>]"
proof -
  have "clampChapter (2 ^ 54) \<lparr>title = str ''A'', startToken = num (2 ^ 54), endToken = NaN\<rparr> =
      Some \<lparr>c_title = str ''A'', c_start = 2 ^ 54, c_end = 2 ^ 54\<rparr>"
    unfolding clampChapter_def beyond_exact_minus by (simp add: num_def)
  then have "List.map_filter (clampChapter (2 ^ 54)) beyond_exact =
      [\<lparr>c_title = str ''A'', c_start = 2 ^ 54, c_end = 2 ^ 54\<rparr>]"
    by (simp add: beyond_exact_def List.map_filter_simps)
  moreover have "normalizeLoop (2 ^ 54) [\<lparr>c_title = str ''A'', c_start = 2 ^ 54, c_end = 2 ^ 54\<rparr>] [] =
      [\<lparr>title = str ''A'', startToken = num (2 ^ 54), endToken = num (2 ^ 54)\<rparr>]"
    unfolding normalizeLoop.simps Let_def clamped.simps beyond_exact_plus
    by (simp add: trim_def is_space_def str_def)
  ultimately show ?thesis
    by (simp add: normalizeChapters_def beyond_exact_def)
qed

text \<open>
  Claim C3, as stated, fails. A declared end is not cut at the start of the next chapter:
  of the chapters \<open>[0, 100)\<close> and \<open>[50, 100)\<close> with 100 tokens the first is kept as it
  is and overlaps the second. A chapter without a declared end ends at the token count,
  not at the start of the next chapter. And beyond \<open>2 ^ 53\<close> an interval can be empty:
  with the token count \<open>2 ^ 54\<close> both \<^verbatim>\<open>tokenCount - 1\<close> and \<^verbatim>\<open>startToken + 1\<close> round
  to \<open>2 ^ 54\<close>, and a chapter that starts there ends there.
\<close>

theorem normalizeChapters_overlap_counterexample:
  "normalizeChapters overlapping 100 = [mkChapter ''A'' 0 100, mkChapter ''B'' 50 100]
   \<and> \<not> endOf (normalizeChapters overlapping 100 ! 0) \<le> startOf (normalizeChapters overlapping 100 ! 1)
   \<and> normalizeChapters open_ended 100 = [mkChapter ''A'' 0 100, mkChapter ''B'' 50 80]
   \<and> endOf (normalizeChapters open_ended 100 ! 0) \<noteq> max (0 + 1) (min 100 50)
   \<and> normalizeChapters beyond_exact (2 ^ 54) =
       [\<lparr>title = str ''A'', startToken = num (2 ^ 54), endToken = num (2 ^ 54)\<rparr>]
   \<and> \<not> startOf (normalizeChapters beyond_exact (2 ^ 54) ! 0)
         < endOf (normalizeChapters beyond_exact (2 ^ 54) ! 0)"
  unfolding normalize_overlapping normalize_open_ended normalize_beyond_exact
  by (simp add: mkChapter_def)

text \<open>
  Claim C3, amended. For every chapter list and every token count above 0 and up to
  \<open>2 ^ 53\<close>, every chapter of the output has integer bounds with
  \<open>0 \<le> startToken < endToken \<le> tokenCount\<close>. It comes from the first chapter of the input
  whose start is finite and, floored and clamped to \<open>[0, tokenCount - 1]\<close>, is its start:
  it has the trimmed title of that chapter when that is not empty, and when that chapter
  declares a finite end of at least 1, its end is
  \<open>max (startToken + 1) (min tokenCount (floor of the declared end))\<close>. Every chapter of
  the input with a finite start has its clamped start among the starts of the output, and
  the starts of the output are strictly ascending. An end is not bounded by the start of
  the next chapter.
\<close>

theorem normalizeChapters_intervals:
  assumes "0 < tc" and "tc \<le> 2 ^ 53"
  shows "(\<forall>c\<in>set (normalizeChapters L tc).
            startToken c = num (startOf c) \<and> endToken c = num (endOf c)
            \<and> 0 \<le> startOf c \<and> startOf c < endOf c \<and> endOf c \<le> tc
            \<and> (\<exists>r. List.find (\<lambda>r. clamped_start tc r = Some (startOf c)) L = Some r
                 \<and> (trim (title r) \<noteq> [] \<longrightarrow> title c = trim (title r))
                 \<and> (\<forall>rawEnd. endToken r = Finite rawEnd \<and> 1 \<le> rawEnd
                       \<longrightarrow> endOf c = max (startOf c + 1) (min tc \<lfloor>rawEnd\<rfloor>))))
         \<and> (\<forall>r\<in>set L. \<forall>s. clamped_start tc r = Some s
               \<longrightarrow> (\<exists>c\<in>set (normalizeChapters L tc). startOf c = s))
         \<and> sorted_wrt (\<lambda>a b. startOf a < startOf b) (normalizeChapters L tc)"
proof (intro conjI ballI allI impI)
  fix c assume c: "c \<in> set (normalizeChapters L tc)"
  note n = normalizeChapters_normalized [OF c]
  from n show "startToken c = num (startOf c)" "endToken c = num (endOf c)"
    by (simp_all add: normalized_chapter_def)
  from normalized_bounds [OF n assms(2)]
  show "0 \<le> startOf c" "startOf c < endOf c" "endOf c \<le> tc"
    by simp_all
  show "\<exists>r. List.find (\<lambda>r. clamped_start tc r = Some (startOf c)) L = Some r
           \<and> (trim (title r) \<noteq> [] \<longrightarrow> title c = trim (title r))
           \<and> (\<forall>rawEnd. endToken r = Finite rawEnd \<and> 1 \<le> rawEnd
                 \<longrightarrow> endOf c = max (startOf c + 1) (min tc \<lfloor>rawEnd\<rfloor>))"
    by (rule normalizeChapters_source [OF assms c])
next
  fix r s assume "r \<in> set L" and "clamped_start tc r = Some s"
  then show "\<exists>c\<in>set (normalizeChapters L tc). startOf c = s"
    by (rule normalizeChapters_covers [OF assms])
next
  show "sorted_wrt (\<lambda>a b. startOf a < startOf b) (normalizeChapters L tc)"
    by (rule normalizeChapters_sorted)
qed

theorem normalizeChapters_intervals_witness:
  "(0::int) < 100 \<and> (100::int) \<le> 2 ^ 53
   \<and> normalizeChapters overlapping 100 = [mkChapter ''A'' 0 100, mkChapter ''B'' 50 100]
   \<and> mkChapter ''B'' 50 100 \<in> set overlapping
   \<and> clamped_start 100 (mkChapter ''B'' 50 100) = Some 50
   \<and> endToken (mkChapter ''A'' 0 100) = Finite 100 \<and> (1::rat) \<le> 100
   \<and> startOf (mkChapter ''A'' 0 100) < endOf (mkChapter ''A'' 0 100)
   \<and> endOf (mkChapter ''A'' 0 100) \<le> 100
   \<and> startOf (mkChapter ''B'' 50 100) < endOf (mkChapter ''B'' 50 100)
   \<and> endOf (mkChapter ''B'' 50 100) \<le> 100
   \<and> (startOf (mkChapter ''A'' 0 100) = 50 \<or> startOf (mkChapter ''B'' 50 100) = 50)
   \<and> List.find (\<lambda>r. clamped_start 100 r = Some 0) overlapping = Some (mkChapter ''A'' 0 100)
   \<and> sorted_wrt (\<lambda>a b. startOf a < startOf b) [mkChapter ''A'' 0 100, mkChapter ''B'' 50 100]"
proof -
  have h1: "(0::int) < 100" and h2: "(100::int) \<le> 2 ^ 53" by simp_all
  note t = normalizeChapters_intervals [OF h1 h2, of overlapping]
  have b: "mkChapter ''B'' 50 100 \<in> set overlapping"
    by (simp add: overlapping_def)
  have cs: "clamped_start 100 (mkChapter ''B'' 50 100) = Some 50"
    by (simp add: clamped_start_def mkChapter_def num_def)
  have e: "endToken (mkChapter ''A'' 0 100) = Finite 100" "(1::rat) \<le> 100"
    by (simp_all add: mkChapter_def num_def)
  from t have "\<forall>c\<in>set (normalizeChapters overlapping 100). startOf c < endOf c \<and> endOf c \<le> 100"
    by blast
  then have "\<forall>c\<in>set [mkChapter ''A'' 0 100, mkChapter ''B'' 50 100]. startOf c < endOf c \<and> endOf c \<le> 100"
    by (simp only: normalize_overlapping)
  then have i: "startOf (mkChapter ''A'' 0 100) < endOf (mkChapter ''A'' 0 100)"
    "endOf (mkChapter ''A'' 0 100) \<le> 100"
    "startOf (mkChapter ''B'' 50 100) < endOf (mkChapter ''B'' 50 100)"
    "endOf (mkChapter ''B'' 50 100) \<le> 100"
    by simp_all
  from t b cs have "\<exists>c\<in>set (normalizeChapters overlapping 100). startOf c = 50"
    by blast
  then have "\<exists>c\<in>set [mkChapter ''A'' 0 100, mkChapter ''B'' 50 100]. startOf c = 50"
    by (simp only: normalize_overlapping)
  then have c: "startOf (mkChapter ''A'' 0 100) = 50 \<or> startOf (mkChapter ''B'' 50 100) = 50"
    by simp
  have f: "List.find (\<lambda>r. clamped_start 100 r = Some 0) overlapping = Some (mkChapter ''A'' 0 100)"
    by (simp add: overlapping_def clamped_start_def mkChapter_def num_def)
  from t have "sorted_wrt (\<lambda>a b. startOf a < startOf b) (normalizeChapters overlapping 100)"
    by blast
  then have s: "sorted_wrt (\<lambda>a b. startOf a < startOf b) [mkChapter ''A'' 0 100, mkChapter ''B'' 50 100]"
    by (simp only: normalize_overlapping)
  from h1 h2 normalize_overlapping b cs e i c f s show ?thesis
    by (intro conjI)
qed

lemma js_le_trans: "js_le a b \<Longrightarrow> js_le b c \<Longrightarrow> js_le a c"
  by (cases a; cases b; cases c) auto

lemma bsearch_stop: "\<not> low \<le> high \<Longrightarrow> bsearch cs t low high best = Inr best"
  by (subst bsearch.simps) simp

lemma bsearch_right:
  assumes "low \<le> high" and "0 \<le> low" and "high < int (length cs)"
    and "js_le (startToken (cs ! nat ((low + high) div 2))) t"
  shows "bsearch cs t low high best =
         bsearch cs t ((low + high) div 2 + 1) high ((low + high) div 2)"
proof -
  from assms(1-3) have "\<not> ((low + high) div 2 < 0 \<or> int (length cs) \<le> (low + high) div 2)"
    by linarith
  with assms(1,4) show ?thesis
    by (subst bsearch.simps) (simp add: Let_def)
qed

lemma bsearch_left:
  assumes "low \<le> high" and "0 \<le> low" and "high < int (length cs)"
    and "\<not> js_le (startToken (cs ! nat ((low + high) div 2))) t"
  shows "bsearch cs t low high best = bsearch cs t low ((low + high) div 2 - 1) best"
proof -
  from assms(1-3) have "\<not> ((low + high) div 2 < 0 \<or> int (length cs) \<le> (low + high) div 2)"
    by linarith
  with assms(1,4) show ?thesis
    by (subst bsearch.simps) (simp add: Let_def)
qed

lemma bsearch_range:
  assumes "0 \<le> low" and "high < int (length cs)"
  shows "\<exists>r. bsearch cs t low high best = Inr r \<and> (r = best \<or> (low \<le> r \<and> r \<le> high))"
  using assms
proof (induction cs t low high best rule: bsearch.induct)
  case (1 cs t low high best)
  show ?case
  proof (cases "low \<le> high")
    case False
    then show ?thesis by (simp add: bsearch_stop)
  next
    case True
    let ?mid = "(low + high) div 2"
    from True "1.prems" have mid: "low \<le> ?mid" "?mid \<le> high" "\<not> (?mid < 0 \<or> int (length cs) \<le> ?mid)"
      by linarith+
    show ?thesis
    proof (cases "js_le (startToken (cs ! nat ?mid)) t")
      case P: True
      have "0 \<le> ?mid + 1" using mid "1.prems" by linarith
      from "1.IH"(1) [OF True refl mid(3) P this "1.prems"(2)]
      obtain r where "bsearch cs t (?mid + 1) high ?mid = Inr r"
        and "r = ?mid \<or> (?mid + 1 \<le> r \<and> r \<le> high)"
        by blast
      with mid show ?thesis
        unfolding bsearch_right [OF True "1.prems" P] by auto
    next
      case P: False
      have "?mid - 1 < int (length cs)" using mid "1.prems" by linarith
      from "1.IH"(2) [OF True refl mid(3) P "1.prems"(1) this]
      obtain r where "bsearch cs t low (?mid - 1) best = Inr r"
        and "r = best \<or> (low \<le> r \<and> r \<le> ?mid - 1)"
        by blast
      with mid show ?thesis
        unfolding bsearch_left [OF True "1.prems" P] by auto
    qed
  qed
qed

lemma bsearch_mono:
  assumes "0 \<le> low" and "high < int (length cs)"
    and "js_le t1 t2" and "b1 \<le> b2" and "b1 \<le> low"
    and "bsearch cs t1 low high b1 = Inr r1" and "bsearch cs t2 low high b2 = Inr r2"
  shows "r1 \<le> r2"
  using assms
proof (induction cs t1 low high b1 arbitrary: b2 rule: bsearch.induct)
  case (1 cs t1 low high b1)
  show ?case
  proof (cases "low \<le> high")
    case False
    with "1.prems" show ?thesis by (simp add: bsearch_stop)
  next
    case True
    let ?mid = "(low + high) div 2"
    from True "1.prems"(1,2) have mid: "low \<le> ?mid" "?mid \<le> high"
      "\<not> (?mid < 0 \<or> int (length cs) \<le> ?mid)"
      by linarith+
    have up: "0 \<le> ?mid + 1" and dn: "?mid - 1 < int (length cs)"
      using mid "1.prems"(1,2) by linarith+
    show ?thesis
    proof (cases "js_le (startToken (cs ! nat ?mid)) t1")
      case P1: True
      have P2: "js_le (startToken (cs ! nat ?mid)) t2"
        by (rule js_le_trans [OF P1 "1.prems"(3)])
      from "1.prems"(6) have a: "bsearch cs t1 (?mid + 1) high ?mid = Inr r1"
        by (simp only: bsearch_right [OF True "1.prems"(1,2) P1])
      from "1.prems"(7) have b: "bsearch cs t2 (?mid + 1) high ?mid = Inr r2"
        by (simp only: bsearch_right [OF True "1.prems"(1,2) P2])
      show ?thesis
        by (rule "1.IH"(1) [OF True refl mid(3) P1 up "1.prems"(2,3) _ _ a b]) simp_all
    next
      case P1: False
      from "1.prems"(6) have a: "bsearch cs t1 low (?mid - 1) b1 = Inr r1"
        by (simp only: bsearch_left [OF True "1.prems"(1,2) P1])
      show ?thesis
      proof (cases "js_le (startToken (cs ! nat ?mid)) t2")
        case P2: False
        from "1.prems"(7) have b: "bsearch cs t2 low (?mid - 1) b2 = Inr r2"
          by (simp only: bsearch_left [OF True "1.prems"(1,2) P2])
        show ?thesis
          by (rule "1.IH"(2) [OF True refl mid(3) P1 "1.prems"(1) dn "1.prems"(3,4,5) a b])
      next
        case P2: True
        from "1.prems"(7) have b: "bsearch cs t2 (?mid + 1) high ?mid = Inr r2"
          by (simp only: bsearch_right [OF True "1.prems"(1,2) P2])
        from bsearch_range [OF "1.prems"(1) dn, of t1 b1] a
        have "r1 = b1 \<or> (low \<le> r1 \<and> r1 \<le> ?mid - 1)" by auto
        moreover from bsearch_range [OF up "1.prems"(2), of t2 ?mid] b
        have "r2 = ?mid \<or> (?mid + 1 \<le> r2 \<and> r2 \<le> high)" by auto
        ultimately show ?thesis
          using "1.prems"(5) mid by linarith
      qed
    qed
  qed
qed

lemma bsearch_greatest:
  assumes "\<forall>i j. 0 \<le> i \<and> i \<le> j \<and> j < int (length cs)
        \<and> js_le (startToken (cs ! nat j)) t \<longrightarrow> js_le (startToken (cs ! nat i)) t"
    and "0 \<le> low" and "high < int (length cs)" and "low \<le> high + 1"
    and "\<forall>i. 0 \<le> i \<and> i < low \<longrightarrow> js_le (startToken (cs ! nat i)) t"
    and "\<forall>i. high < i \<and> i < int (length cs) \<longrightarrow> \<not> js_le (startToken (cs ! nat i)) t"
    and "(low = 0 \<and> best = 0) \<or> (0 < low \<and> best = low - 1)"
  shows "\<exists>r. bsearch cs t low high best = Inr r \<and>
     (if \<exists>i. 0 \<le> i \<and> i < int (length cs) \<and> js_le (startToken (cs ! nat i)) t
      then 0 \<le> r \<and> r < int (length cs) \<and> js_le (startToken (cs ! nat r)) t
           \<and> (\<forall>j. 0 \<le> j \<and> j < int (length cs) \<and> js_le (startToken (cs ! nat j)) t \<longrightarrow> j \<le> r)
      else r = 0)"
  using assms
proof (induction cs t low high best rule: bsearch.induct)
  case (1 cs t low high best)
  let ?P = "\<lambda>i. js_le (startToken (cs ! nat i)) t"
  note down = "1.prems"(1)
  note lo = "1.prems"(2) and hi = "1.prems"(3) and lh = "1.prems"(4)
  note below = "1.prems"(5) and above = "1.prems"(6) and inv = "1.prems"(7)
  show ?case
  proof (cases "low \<le> high")
    case False
    with lh have eq: "low = high + 1" by simp
    have stop: "bsearch cs t low high best = Inr best"
      using False by (rule bsearch_stop)
    show ?thesis
    proof (cases "\<exists>i. 0 \<le> i \<and> i < int (length cs) \<and> ?P i")
      case True
      then obtain i where i: "0 \<le> i" "i < int (length cs)" "?P i" by blast
      with above have "i \<le> high" by (meson not_le)
      with i(1) eq have "0 < low" by simp
      with inv have b: "best = low - 1" by simp
      with \<open>0 < low\<close> below have "?P best" by auto
      moreover have "0 \<le> best" "best < int (length cs)"
        using b \<open>0 < low\<close> eq hi by simp_all
      moreover have "\<forall>j. 0 \<le> j \<and> j < int (length cs) \<and> ?P j \<longrightarrow> j \<le> best"
      proof (intro allI impI)
        fix j assume "0 \<le> j \<and> j < int (length cs) \<and> ?P j"
        with above have "j \<le> high" by (meson not_le)
        with b eq show "j \<le> best" by simp
      qed
      ultimately show ?thesis
        using True stop by simp
    next
      case none: False
      have "low = 0"
      proof (rule ccontr)
        assume "low \<noteq> 0"
        with lo have "0 < low" by simp
        with below have "0 \<le> (0::int) \<and> (0::int) < low \<longrightarrow> ?P 0" by blast
        with \<open>0 < low\<close> have "?P 0" by simp
        moreover from \<open>0 < low\<close> eq hi have "0 < int (length cs)" by linarith
        moreover have "(0::int) \<le> 0" by simp
        ultimately show False using none by blast
      qed
      with inv have "best = 0" by simp
      show ?thesis
        by (intro exI [of _ best] conjI stop) (simp only: none if_False \<open>best = 0\<close>)
    qed
  next
    case True
    let ?mid = "(low + high) div 2"
    from True lo hi have mid: "low \<le> ?mid" "?mid \<le> high"
      "\<not> (?mid < 0 \<or> int (length cs) \<le> ?mid)"
      by linarith+
    have up: "0 \<le> ?mid + 1" and dn: "?mid - 1 < int (length cs)"
      using mid lo hi by linarith+
    show ?thesis
    proof (cases "?P ?mid")
      case P: True
      have below': "\<forall>i. 0 \<le> i \<and> i < ?mid + 1 \<longrightarrow> ?P i"
      proof (intro allI impI)
        fix i assume "0 \<le> i \<and> i < ?mid + 1"
        with mid P have "0 \<le> i \<and> i \<le> ?mid \<and> ?mid < int (length cs) \<and> ?P ?mid"
          by simp
        with down show "?P i" by blast
      qed
      have inv': "(?mid + 1 = 0 \<and> ?mid = 0) \<or> (0 < ?mid + 1 \<and> ?mid = ?mid + 1 - 1)"
        using up mid lo by simp
      have lh': "?mid + 1 \<le> high + 1" using mid by simp
      show ?thesis
        unfolding bsearch_right [OF True lo hi P]
        by (rule "1.IH"(1) [OF True refl mid(3) P down up hi lh' below' above inv'])
    next
      case P: False
      have above': "\<forall>i. ?mid - 1 < i \<and> i < int (length cs) \<longrightarrow> \<not> ?P i"
      proof (intro allI impI notI)
        fix i assume a: "?mid - 1 < i \<and> i < int (length cs)" and "?P i"
        with mid lo have "0 \<le> ?mid \<and> ?mid \<le> i \<and> i < int (length cs) \<and> ?P i"
          by simp
        with down have "?P ?mid" by blast
        with P show False by simp
      qed
      have lh': "low \<le> ?mid - 1 + 1" using mid by simp
      show ?thesis
        unfolding bsearch_left [OF True lo hi P]
        by (rule "1.IH"(2) [OF True refl mid(3) P down lo dn lh' below above' inv])
    qed
  qed
qed

lemma sorted_down:
  assumes "sorted_wrt (\<lambda>a b. js_le (startToken a) (startToken b)) cs"
  shows "\<forall>i j. 0 \<le> i \<and> i \<le> j \<and> j < int (length cs)
        \<and> js_le (startToken (cs ! nat j)) t \<longrightarrow> js_le (startToken (cs ! nat i)) t"
proof (intro allI impI)
  fix i j :: int
  assume a: "0 \<le> i \<and> i \<le> j \<and> j < int (length cs) \<and> js_le (startToken (cs ! nat j)) t"
  show "js_le (startToken (cs ! nat i)) t"
  proof (cases "i = j")
    case True
    with a show ?thesis by simp
  next
    case False
    with a have "nat i < nat j" "nat j < length cs" by linarith+
    with assms have "js_le (startToken (cs ! nat i)) (startToken (cs ! nat j))"
      by (simp add: sorted_wrt_iff_nth_less)
    with a show ?thesis by (blast intro: js_le_trans)
  qed
qed

lemma js_le_refl_if: "js_le x t \<Longrightarrow> js_le x x"
  by (cases x; cases t) auto

lemma findChapterIndex_nonempty:
  assumes "cs \<noteq> []"
  shows "\<exists>r. findChapterIndex cs t = Inr r \<and> 0 \<le> r \<and> r < int (length cs)"
proof -
  have "(0::int) \<le> 0" and "int (length cs) - 1 < int (length cs)"
    by simp_all
  from bsearch_range [OF this, of t 0] obtain r where
    "bsearch cs t 0 (int (length cs) - 1) 0 = Inr r"
    and "r = 0 \<or> (0 \<le> r \<and> r \<le> int (length cs) - 1)"
    by blast
  moreover from assms have "0 < int (length cs)" by simp
  ultimately show ?thesis
    using assms by (auto simp: findChapterIndex_def)
qed

lemma findChapterIndex_mono:
  assumes "js_le t1 t2" and "findChapterIndex cs t1 = Inr r1" and "findChapterIndex cs t2 = Inr r2"
  shows "r1 \<le> r2"
proof (cases "cs = []")
  case True
  with assms(2,3) show ?thesis by (simp add: findChapterIndex_def)
next
  case False
  with assms(2,3) have a: "bsearch cs t1 0 (int (length cs) - 1) 0 = Inr r1"
    and b: "bsearch cs t2 0 (int (length cs) - 1) 0 = Inr r2"
    by (simp_all add: findChapterIndex_def)
  have "(0::int) \<le> 0" and "int (length cs) - 1 < int (length cs)"
    by simp_all
  from bsearch_mono [OF this assms(1) _ _ a b] show ?thesis by simp
qed

lemma findChapterIndex_sorted:
  assumes "cs \<noteq> []" and srt: "sorted_wrt (\<lambda>a b. js_le (startToken a) (startToken b)) cs"
    and r: "findChapterIndex cs t = Inr r"
  shows "if \<exists>i<length cs. js_le (startToken (cs ! i)) t
         then 0 \<le> r \<and> nat r < length cs \<and> js_le (startToken (cs ! nat r)) t
              \<and> (\<forall>j<length cs. js_le (startToken (cs ! j)) t \<longrightarrow>
                    int j \<le> r \<and> js_le (startToken (cs ! j)) (startToken (cs ! nat r)))
         else r = 0"
proof -
  let ?P = "\<lambda>i. js_le (startToken (cs ! nat i)) t"
  have b: "bsearch cs t 0 (int (length cs) - 1) 0 = Inr r"
    using r assms(1) by (simp add: findChapterIndex_def)
  have "\<exists>r. bsearch cs t 0 (int (length cs) - 1) 0 = Inr r \<and>
     (if \<exists>i. 0 \<le> i \<and> i < int (length cs) \<and> ?P i
      then 0 \<le> r \<and> r < int (length cs) \<and> ?P r
           \<and> (\<forall>j. 0 \<le> j \<and> j < int (length cs) \<and> ?P j \<longrightarrow> j \<le> r)
      else r = 0)"
  proof (rule bsearch_greatest [OF sorted_down [OF srt]])
    show "(0::int) \<le> 0" by simp
    show "int (length cs) - 1 < int (length cs)" by simp
    show "0 \<le> int (length cs) - 1 + 1" by simp
    show "\<forall>i. 0 \<le> i \<and> i < 0 \<longrightarrow> ?P i" by linarith
    show "\<forall>i. int (length cs) - 1 < i \<and> i < int (length cs) \<longrightarrow> \<not> ?P i" by linarith
    show "((0::int) = 0 \<and> (0::int) = 0) \<or> ((0::int) < 0 \<and> (0::int) = 0 - 1)" by simp
  qed
  with b have g: "if \<exists>i. 0 \<le> i \<and> i < int (length cs) \<and> ?P i
      then 0 \<le> r \<and> r < int (length cs) \<and> ?P r
           \<and> (\<forall>j. 0 \<le> j \<and> j < int (length cs) \<and> ?P j \<longrightarrow> j \<le> r)
      else r = 0"
    by auto
  have ex: "(\<exists>i<length cs. js_le (startToken (cs ! i)) t) \<longleftrightarrow>
            (\<exists>i. 0 \<le> i \<and> i < int (length cs) \<and> ?P i)"
  proof
    assume "\<exists>i<length cs. js_le (startToken (cs ! i)) t"
    then obtain i where "i < length cs" "js_le (startToken (cs ! i)) t" by blast
    then have "0 \<le> int i \<and> int i < int (length cs) \<and> ?P (int i)" by simp
    then show "\<exists>i. 0 \<le> i \<and> i < int (length cs) \<and> ?P i" by blast
  next
    assume "\<exists>i. 0 \<le> i \<and> i < int (length cs) \<and> ?P i"
    then obtain i where "0 \<le> i" "i < int (length cs)" "?P i" by blast
    then have "nat i < length cs \<and> js_le (startToken (cs ! nat i)) t" by simp
    then show "\<exists>i<length cs. js_le (startToken (cs ! i)) t" by blast
  qed
  show ?thesis
  proof (cases "\<exists>i<length cs. js_le (startToken (cs ! i)) t")
    case False
    with g ex have z: "r = 0" by simp
    show ?thesis by (simp only: False if_False z)
  next
    case True
    with g ex have r0: "0 \<le> r" and rl: "r < int (length cs)" and pr: "?P r"
      and mx: "\<forall>j. 0 \<le> j \<and> j < int (length cs) \<and> ?P j \<longrightarrow> j \<le> r"
      by simp_all
    have all: "\<forall>j<length cs. js_le (startToken (cs ! j)) t \<longrightarrow>
            int j \<le> r \<and> js_le (startToken (cs ! j)) (startToken (cs ! nat r))"
    proof (intro allI impI)
      fix j assume j: "j < length cs" and pj: "js_le (startToken (cs ! j)) t"
      then have "0 \<le> int j \<and> int j < int (length cs) \<and> ?P (int j)" by simp
      with mx have le: "int j \<le> r" by blast
      have "js_le (startToken (cs ! j)) (startToken (cs ! nat r))"
      proof (cases "int j = r")
        case True
        then have "nat r = j" by simp
        with pj show ?thesis by (simp add: js_le_refl_if)
      next
        case False
        with le r0 rl have "j < nat r" "nat r < length cs" by linarith+
        with srt show ?thesis by (simp add: sorted_wrt_iff_nth_less)
      qed
      with le show "int j \<le> r \<and> js_le (startToken (cs ! j)) (startToken (cs ! nat r))"
        by simp
    qed
    from r0 rl have nl: "nat r < length cs" by linarith
    show ?thesis
      by (simp only: True if_True) (intro conjI r0 nl pr all)
  qed
qed

text \<open>
  Claim C6. \<^verbatim>\<open>findChapterIndex\<close> never raises; it returns -1 exactly when the chapter
  list is empty; for a fixed chapter list its result does not decrease when the token index
  increases; and for a non-empty list sorted ascending by start it returns the greatest
  index of a chapter that starts at or before the token index, whose start is the greatest
  such start, and 0 when no chapter starts at or before the token index.
\<close>

theorem findChapterIndex_locates:
  "\<exists>r1 r2. findChapterIndex cs t1 = Inr r1 \<and> findChapterIndex cs t2 = Inr r2
     \<and> (r1 = - 1 \<longleftrightarrow> cs = [])
     \<and> (js_le t1 t2 \<longrightarrow> r1 \<le> r2)
     \<and> (cs \<noteq> [] \<and> sorted_wrt (\<lambda>a b. js_le (startToken a) (startToken b)) cs \<longrightarrow>
          (if \<exists>i<length cs. js_le (startToken (cs ! i)) t1
           then 0 \<le> r1 \<and> nat r1 < length cs \<and> js_le (startToken (cs ! nat r1)) t1
                \<and> (\<forall>j<length cs. js_le (startToken (cs ! j)) t1 \<longrightarrow>
                      int j \<le> r1 \<and> js_le (startToken (cs ! j)) (startToken (cs ! nat r1)))
           else r1 = 0))"
proof -
  obtain r1 where r1: "findChapterIndex cs t1 = Inr r1" and e1: "r1 = - 1 \<longleftrightarrow> cs = []"
  proof (cases "cs = []")
    case True
    then have "findChapterIndex cs t1 = Inr (- 1)" by (simp add: findChapterIndex_def)
    with True that show ?thesis by simp
  next
    case False
    from findChapterIndex_nonempty [OF this, of t1] obtain r where
      "findChapterIndex cs t1 = Inr r" "0 \<le> r" by blast
    with False that show ?thesis by simp
  qed
  obtain r2 where r2: "findChapterIndex cs t2 = Inr r2"
  proof (cases "cs = []")
    case True
    then have "findChapterIndex cs t2 = Inr (- 1)" by (simp add: findChapterIndex_def)
    with that show ?thesis by simp
  next
    case False
    from findChapterIndex_nonempty [OF this, of t2] that show ?thesis by blast
  qed
  have m: "js_le t1 t2 \<longrightarrow> r1 \<le> r2"
    using findChapterIndex_mono [OF _ r1 r2] by blast
  have s: "cs \<noteq> [] \<and> sorted_wrt (\<lambda>a b. js_le (startToken a) (startToken b)) cs \<longrightarrow>
          (if \<exists>i<length cs. js_le (startToken (cs ! i)) t1
           then 0 \<le> r1 \<and> nat r1 < length cs \<and> js_le (startToken (cs ! nat r1)) t1
                \<and> (\<forall>j<length cs. js_le (startToken (cs ! j)) t1 \<longrightarrow>
                      int j \<le> r1 \<and> js_le (startToken (cs ! j)) (startToken (cs ! nat r1)))
           else r1 = 0)"
    using findChapterIndex_sorted [OF _ _ r1] by blast
  from r1 r2 e1 m s show ?thesis
    by (intro exI [of _ r1] exI [of _ r2] conjI)
qed

lemma three_chapters_eval:
  "findChapterIndex three_chapters (num 9) = Inr 0"
  "findChapterIndex three_chapters (num 25) = Inr 2"
  by (simp_all add: findChapterIndex_def three_chapters_def mkChapter_def num_def bsearch.simps)

theorem findChapterIndex_locates_witness:
  "findChapterIndex three_chapters (num 9) = Inr 0
   \<and> findChapterIndex three_chapters (num 25) = Inr 2
   \<and> js_le (num 9) (num 25) \<and> three_chapters \<noteq> []
   \<and> sorted_wrt (\<lambda>a b. js_le (startToken a) (startToken b)) three_chapters
   \<and> js_le (startToken (three_chapters ! 0)) (num 9)"
  using findChapterIndex_locates [of three_chapters "num 9" "num 25"]
  by (simp add: three_chapters_eval) (simp add: three_chapters_def mkChapter_def num_def)

section \<open>Properties of the focal-point font size\<close>














section \<open>Properties of the chunked token store\<close>

lemma tokenChunkKey_inj:
  "tokenChunkKey prefix bookId i = tokenChunkKey prefix bookId j \<longleftrightarrow> i = j"
  by (auto simp: tokenChunkKey_def dest: digits_inj)

lemma saveLoop_lookup:
  "saveLoop store prefix bookId tokens csize tot i (tokenChunkKey prefix bookId j) =
     (if i \<le> j \<and> j < tot
      then Some (JSON_stringify (slice tokens (j * csize) (j * csize + csize)))
      else store (tokenChunkKey prefix bookId j))"
proof (induction store prefix bookId tokens csize tot i rule: saveLoop.induct)
  case (1 store prefix bookId tokens csize totalChunks chunkIndex)
  show ?case
  proof (cases "chunkIndex < totalChunks")
    case True
    let ?chunk = "slice tokens (chunkIndex * csize) (chunkIndex * csize + csize)"
    let ?store = "store(tokenChunkKey prefix bookId chunkIndex \<mapsto> JSON_stringify ?chunk)"
    have step: "saveLoop store prefix bookId tokens csize totalChunks chunkIndex =
        saveLoop ?store prefix bookId tokens csize totalChunks (chunkIndex + 1)"
      using True by (subst saveLoop.simps) (simp add: Let_def)
    have ih: "saveLoop ?store prefix bookId tokens csize totalChunks (chunkIndex + 1)
          (tokenChunkKey prefix bookId j) =
        (if chunkIndex + 1 \<le> j \<and> j < totalChunks
         then Some (JSON_stringify (slice tokens (j * csize) (j * csize + csize)))
         else ?store (tokenChunkKey prefix bookId j))"
      by (rule "1.IH" [OF True refl refl])
    show ?thesis
      unfolding step ih using True by (auto simp: tokenChunkKey_inj)
  next
    case False
    then show ?thesis
      by (subst saveLoop.simps) auto
  qed
qed

lemma concat_slices:
  "concat (map (\<lambda>i. slice xs (i * c) (i * c + c)) [0..<k]) = take (k * c) xs"
proof (induction k)
  case 0
  show ?case by simp
next
  case (Suc k)
  have "take (k * c) xs @ take c (drop (k * c) xs) = take (k * c + c) xs"
    by (simp add: take_add)
  with Suc show ?case
    by (simp add: slice_def add.commute)
qed

lemma ceil_bounds:
  assumes "0 < (c::nat)" and "k = (n + c - 1) div c"
  shows "n \<le> k * c" and "k * c < n + c"
proof -
  have "n + c - 1 < c + (n + c - 1) div c * c"
    using assms(1) by (rule dividend_less_div_times)
  then have "n + c - 1 < c + k * c"
    by (simp only: assms(2))
  then show "n \<le> k * c" using assms(1) by linarith
  have "(n + c - 1) div c * c \<le> n + c - 1"
    by simp
  then have "k * c \<le> n + c - 1"
    by (simp only: assms(2))
  then show "k * c < n + c" using assms(1) by linarith
qed

lemma ceiling_div_int:
  assumes "0 < c"
  shows "\<lceil>(of_nat n :: rat) / of_nat c\<rceil> = int ((n + c - 1) div c)"
proof -
  define k where "k = (n + c - 1) div c"
  note b = ceil_bounds [OF assms k_def]
  have "\<lceil>(of_nat n :: rat) / of_nat c\<rceil> = int k"
  proof (rule ceiling_unique)
    have "(of_nat (k * c) :: rat) < of_nat (n + c)"
      using b(2) by (simp only: of_nat_less_iff)
    then have "(of_int (int k) - 1) * (of_nat c :: rat) < of_nat n"
      by (simp add: algebra_simps)
    then show "of_int (int k) - 1 < (of_nat n :: rat) / of_nat c"
      using assms by (simp add: pos_less_divide_eq)
  next
    have "(of_nat n :: rat) \<le> of_nat (k * c)"
      using b(1) by (simp only: of_nat_le_iff)
    then show "(of_nat n :: rat) / of_nat c \<le> of_int (int k)"
      using assms by (simp add: pos_divide_le_eq)
  qed
  then show ?thesis
    by (simp add: k_def)
qed

lemma length_slice_chunk:
  assumes "i < (k::nat)" and "n \<le> k * c" and "k * c < n + c" and "length xs = n"
  shows "length (slice xs (i * c) (i * c + c)) =
           (if i + 1 < k then c else n - (k - 1) * c)"
proof (cases "i + 1 < k")
  case True
  then have "(i + 2) * c \<le> k * c"
    by (intro mult_le_mono1) simp
  with assms(3) have "i * c + c \<le> n"
    by (simp add: algebra_simps)
  with True assms(4) show ?thesis
    by (simp add: slice_def)
next
  case False
  with assms(1) have i: "i = k - 1" and "0 < k"
    by simp_all
  have "k * c = (k - 1) * c + c"
    using \<open>0 < k\<close> by (cases k) simp_all
  with assms(2) have "n - (k - 1) * c \<le> c"
    by simp
  with False assms(4) show ?thesis
    by (simp add: slice_def i)
qed

text \<open>
  Claim C5. For every token sequence and every chunk size of at least 1,
  \<^verbatim>\<open>saveTokenChunks\<close> returns, its chunk count is the ceiling of the number of tokens
  divided by the chunk size, \<^verbatim>\<open>loadTokenChunk\<close> returns for every chunk index below the
  count the array of strings stored there, every chunk but the last holds exactly the chunk
  size many tokens and the last one the remainder, and the chunks concatenated in order
  are the token sequence.
\<close>

theorem chunking_round_trip:
  assumes "1 \<le> csize"
  shows "\<exists>store' chunks.
     saveTokenChunks store prefix bookId tokens csize =
       Some (store', \<lparr>chunkSize = csize, chunkCount = length chunks\<rparr>)
     \<and> int (length chunks) = \<lceil>(of_nat (length tokens) :: rat) / of_nat csize\<rceil>
     \<and> (\<forall>i < length chunks.
           loadTokenChunk store' prefix bookId i = Inr (JArr (map JStr (chunks ! i)))
         \<and> length (chunks ! i) =
             (if i + 1 < length chunks then csize
              else length tokens - (length chunks - 1) * csize))
     \<and> concat chunks = tokens"
proof -
  define k where "k = (length tokens + csize - 1) div csize"
  define chunks where "chunks = map (\<lambda>i. slice tokens (i * csize) (i * csize + csize)) [0..<k]"
  define store' where "store' = saveLoop store prefix bookId tokens csize k 0"
  from assms have pos: "0 < csize" by simp
  note bounds = ceil_bounds [OF pos k_def]
  have ceil_int: "\<lceil>(of_nat (length tokens) :: rat) / of_nat csize\<rceil> = int k"
    unfolding k_def by (rule ceiling_div_int [OF pos])
  have len: "length chunks = k"
    by (simp add: chunks_def)
  have save: "saveTokenChunks store prefix bookId tokens csize =
       Some (store', \<lparr>chunkSize = csize, chunkCount = length chunks\<rparr>)"
    using pos by (simp add: saveTokenChunks_def ceil_int len store'_def)
  have each: "\<forall>i < length chunks.
           loadTokenChunk store' prefix bookId i = Inr (JArr (map JStr (chunks ! i)))
         \<and> length (chunks ! i) =
             (if i + 1 < length chunks then csize
              else length tokens - (length chunks - 1) * csize)"
  proof (intro allI impI conjI)
    fix i assume i: "i < length chunks"
    then have ik: "i < k" by (simp add: len)
    then have nth: "chunks ! i = slice tokens (i * csize) (i * csize + csize)"
      by (simp add: chunks_def)
    show "loadTokenChunk store' prefix bookId i = Inr (JArr (map JStr (chunks ! i)))"
      using ik by (simp add: loadTokenChunk_def store'_def saveLoop_lookup nth JSON_stringify_def)
    show "length (chunks ! i) =
             (if i + 1 < length chunks then csize
              else length tokens - (length chunks - 1) * csize)"
      unfolding nth len
      by (rule length_slice_chunk [OF ik bounds refl])
  qed
  have all: "concat chunks = tokens"
    using bounds(1) by (simp add: chunks_def concat_slices)
  show ?thesis
    using save ceil_int each all len by (intro exI [of _ store'] exI [of _ chunks]) simp
qed

theorem chunking_round_trip_witness:
  "(1::nat) \<le> 2 \<and> (\<exists>store' chunks.
     saveTokenChunks Map.empty (str ''tokenchunk:'') (str ''b1'') [str ''a'', str ''b'', str ''c''] 2 =
       Some (store', \<lparr>chunkSize = 2, chunkCount = length chunks\<rparr>)
     \<and> int (length chunks) = 2
     \<and> concat chunks = [str ''a'', str ''b'', str ''c''])"
proof -
  have c: "\<lceil>(of_nat (length [str ''a'', str ''b'', str ''c'']) :: rat) / of_nat 2\<rceil> = 2"
    by code_simp
  have h: "(1::nat) \<le> 2" by simp
  from chunking_round_trip [OF h, of Map.empty "str ''tokenchunk:''" "str ''b1''" "[str ''a'', str ''b'', str ''c'']"]
  obtain store' chunks where
    "saveTokenChunks Map.empty (str ''tokenchunk:'') (str ''b1'') [str ''a'', str ''b'', str ''c''] 2 =
       Some (store', \<lparr>chunkSize = 2, chunkCount = length chunks\<rparr>)"
    "int (length chunks) = 2" "concat chunks = [str ''a'', str ''b'', str ''c'']"
    unfolding c by auto
  with h show ?thesis
    by (intro conjI exI [of _ store'] exI [of _ chunks])
qed

text \<open>
  Claim C9, as stated, fails: a stored record that is well-formed JSON but no token array,
  here the number 42, is returned as it is and not as \<^verbatim>\<open>null\<close>.
\<close>

theorem loadTokenChunk_non_array_counterexample:
  "loadTokenChunk [tokenChunkKey (str ''tokenchunk:'') (str ''b1'') 0 \<mapsto> Wellformed (JNum 42)]
      (str ''tokenchunk:'') (str ''b1'') 0 = Inr (JNum 42)
   \<and> \<not> is_token_array (JNum 42) \<and> JNum 42 \<noteq> JNull"
  by (simp add: loadTokenChunk_def)

text \<open>
  Claim C9, amended. \<^verbatim>\<open>loadTokenChunk\<close> never raises. It returns \<^verbatim>\<open>null\<close> when
  the record is absent, is the empty string or is not well-formed JSON, and the value that
  the record denotes, without any validation, when it is well-formed JSON: the array when
  that value is an array.
\<close>

theorem loadTokenChunk_total:
  "loadTokenChunk store prefix bookId chunkIndex =
     Inr (case store (tokenChunkKey prefix bookId chunkIndex) of
            None \<Rightarrow> JNull
          | Some Empty \<Rightarrow> JNull
          | Some Malformed \<Rightarrow> JNull
          | Some (Wellformed v) \<Rightarrow> v)"
  by (simp add: loadTokenChunk_def split: option.splits raw_text.splits)

lemma js_rem_nonneg: "0 \<le> a \<Longrightarrow> 0 < b \<Longrightarrow> js_rem a b = a mod b"
  by (cases "a = 0") (simp_all add: js_rem_def)

text \<open>
  Claim C10. \<^verbatim>\<open>resolveToken\<close> leaves the session state, and with it the chunk cache, as
  it is, and reads nothing else. It returns \<^verbatim>\<open>null\<close> without an active book and for an
  index outside \<open>[0, tokenCount)\<close>. For an active book with a positive chunk size it returns
  the token at position \<open>tokenIndex mod chunkSize\<close> of the cached chunk
  \<open>tokenIndex div chunkSize\<close> when the index lies in \<open>[0, tokenCount)\<close> and that chunk is
  cached (and holds that position), and \<^verbatim>\<open>null\<close> otherwise.
\<close>

theorem resolveToken_pure_read:
  "snd (resolveToken st t) = st \<and>
   (bookRef st = None \<longrightarrow> fst (resolveToken st t) = None) \<and>
   (bookRef st = Some b \<and> \<not> (0 \<le> t \<and> t < bm_tokenCount b) \<longrightarrow> fst (resolveToken st t) = None) \<and>
   (bookRef st = Some b \<and> 0 < bm_chunkSize b \<longrightarrow>
      fst (resolveToken st t) =
        (if 0 \<le> t \<and> t < bm_tokenCount b then
           (case map_of (chunkCache st) (t div bm_chunkSize b) of
              None \<Rightarrow> None
            | Some chunk \<Rightarrow>
                if nat (t mod bm_chunkSize b) < length chunk
                then Some (chunk ! nat (t mod bm_chunkSize b)) else None)
         else None))"
proof (intro conjI impI)
  show "snd (resolveToken st t) = st"
    by (simp add: resolveToken_def Let_def split: option.splits)
next
  assume "bookRef st = None"
  then show "fst (resolveToken st t) = None"
    by (simp add: resolveToken_def)
next
  assume "bookRef st = Some b \<and> \<not> (0 \<le> t \<and> t < bm_tokenCount b)"
  then show "fst (resolveToken st t) = None"
    by (auto simp: resolveToken_def)
next
  assume a: "bookRef st = Some b \<and> 0 < bm_chunkSize b"
  show "fst (resolveToken st t) =
      (if 0 \<le> t \<and> t < bm_tokenCount b then
         (case map_of (chunkCache st) (t div bm_chunkSize b) of
            None \<Rightarrow> None
          | Some chunk \<Rightarrow>
              if nat (t mod bm_chunkSize b) < length chunk
              then Some (chunk ! nat (t mod bm_chunkSize b)) else None)
       else None)"
  proof (cases "0 \<le> t \<and> t < bm_tokenCount b")
    case False
    with a show ?thesis
      by (auto simp: resolveToken_def)
  next
    case True
    then have r: "js_rem t (bm_chunkSize b) = t mod bm_chunkSize b"
      using a by (simp add: js_rem_nonneg)
    have p: "0 \<le> t mod bm_chunkSize b"
      using a by simp
    from True a show ?thesis
      by (simp add: resolveToken_def Let_def r p floor_divide_of_int_eq split: option.splits)
  qed
qed

theorem resolveToken_pure_read_witness:
  "bookRef demo_session = Some demo_book \<and> 0 < bm_chunkSize demo_book
   \<and> \<not> (0 \<le> (7::int) \<and> 7 < bm_tokenCount demo_book)
   \<and> bookRef (demo_session\<lparr>bookRef := None\<rparr>) = None
   \<and> resolveToken demo_session 3 = (Some (str ''d''), demo_session)
   \<and> resolveToken demo_session 0 = (None, demo_session)
   \<and> resolveToken demo_session 7 = (None, demo_session)
   \<and> resolveToken (demo_session\<lparr>bookRef := None\<rparr>) 3 = (None, demo_session\<lparr>bookRef := None\<rparr>)"
  using resolveToken_pure_read [of demo_session 3 demo_book]
    resolveToken_pure_read [of demo_session 0 demo_book]
    resolveToken_pure_read [of demo_session 7 demo_book]
    resolveToken_pure_read [of "demo_session\<lparr>bookRef := None\<rparr>" 3 demo_book]
  by (simp add: demo_session_def demo_book_def prod_eq_iff)

section \<open>Properties of the tokenizer\<close>

lemma space_not_mark:
  assumes "is_space w"
  shows "\<not> joiner w" "\<not> trailing_punct w" "\<not> closing_mark w" "\<not> opening_mark w"
  using assms
  by (auto simp: is_space_def joiner_def trailing_punct_def closing_mark_def opening_mark_def)

lemma after_joined_step:
  "joiner j \<and> LN l \<Longrightarrow> after_joined LN (j # l # r) = after_joined LN (dropWhile LN r)"
  by (subst after_joined.simps) simp

lemma after_joined_stop:
  "\<not> (joiner j \<and> LN l) \<Longrightarrow> after_joined LN (j # l # r) = j # l # r"
  by (subst after_joined.simps) auto

lemma after_joined_sep:
  assumes "\<forall>c. is_space c \<longrightarrow> \<not> LN c" and "is_space w"
  shows "after_joined LN (r @ w # b) = after_joined LN r @ w # b"
  using assms
proof (induction LN r rule: after_joined.induct)
  case (1 LN j l r)
  then have nw: "\<not> LN w" by blast
  show ?case
  proof (cases "joiner j \<and> LN l")
    case True
    have "after_joined LN ((j # l # r) @ w # b) = after_joined LN (dropWhile LN (r @ w # b))"
      using after_joined_step [of j LN l "r @ w # b", OF True] by simp
    also have "\<dots> = after_joined LN (dropWhile LN r @ w # b)"
      using nw by (simp add: dropWhile_append3)
    also have "\<dots> = after_joined LN (dropWhile LN r) @ w # b"
      by (rule "1.IH" [OF True "1.prems"])
    also have "\<dots> = after_joined LN (j # l # r) @ w # b"
      using after_joined_step [of j LN l r, OF True] by simp
    finally show ?thesis .
  next
    case False
    have "after_joined LN (j # l # (r @ w # b)) = j # l # (r @ w # b)"
      by (rule after_joined_stop [of j LN l, OF False])
    moreover have "after_joined LN (j # l # r) = j # l # r"
      by (rule after_joined_stop [of j LN l, OF False])
    ultimately show ?thesis by simp
  qed
next
  case (2 LN j)
  then have "\<not> LN w" by blast
  then show ?case by (simp add: after_joined.simps)
next
  case (3 LN)
  then have "\<not> joiner w" by (simp add: space_not_mark)
  then show ?case by (cases b) (simp_all add: after_joined.simps)
qed

lemma after_word_sep:
  assumes "\<forall>c. is_space c \<longrightarrow> \<not> LN c" and "is_space w"
  shows "after_word LN (cs @ w # b) = after_word LN cs @ w # b"
proof -
  from assms have "\<not> LN w" by blast
  with assms(2) show ?thesis
    by (simp add: after_word_def dropWhile_append3 after_joined_sep [OF assms] space_not_mark)
qed

lemma after_joined_suffix: "\<exists>pre. s = pre @ after_joined LN s"
proof (induction LN s rule: after_joined.induct)
  case (1 LN j l r)
  show ?case
  proof (cases "joiner j \<and> LN l")
    case True
    from "1.IH" [OF True] obtain pre where
      pre: "dropWhile LN r = pre @ after_joined LN (dropWhile LN r)" by blast
    have "j # l # r = (j # l # takeWhile LN r) @ dropWhile LN r" by simp
    also have "\<dots> = (j # l # takeWhile LN r @ pre) @ after_joined LN (dropWhile LN r)"
      using pre by simp
    finally have "j # l # r = (j # l # takeWhile LN r @ pre) @ after_joined LN (j # l # r)"
      using after_joined_step [of j LN l r, OF True] by simp
    then show ?thesis by blast
  next
    case False
    have "j # l # r = [] @ after_joined LN (j # l # r)"
      by (simp add: after_joined_stop [of j LN l, OF False])
    then show ?thesis by blast
  qed
next
  case (2 LN j)
  have "[j] = [] @ after_joined LN [j]" by (simp add: after_joined.simps)
  then show ?case by blast
next
  case (3 LN)
  show ?case by (simp add: after_joined.simps)
qed

lemma dropWhile_suffix: "\<exists>pre. s = pre @ dropWhile P s"
  by (metis takeWhile_dropWhile_id)

lemma after_word_suffix: "\<exists>pre. cs = pre @ after_word LN cs"
proof -
  obtain p1 where 1: "cs = p1 @ dropWhile LN cs"
    using dropWhile_suffix by blast
  obtain p2 where 2: "dropWhile LN cs = p2 @ after_joined LN (dropWhile LN cs)"
    using after_joined_suffix by blast
  obtain p3 where 3: "after_joined LN (dropWhile LN cs) =
      p3 @ dropWhile trailing_punct (after_joined LN (dropWhile LN cs))"
    using dropWhile_suffix by blast
  obtain p4 where 4: "dropWhile trailing_punct (after_joined LN (dropWhile LN cs)) =
      p4 @ after_word LN cs"
    unfolding after_word_def using dropWhile_suffix by blast
  have "cs = (p1 @ p2 @ p3 @ p4) @ after_word LN cs"
    using 1 2 3 4 by (metis append.assoc)
  then show ?thesis by blast
qed

lemma after_word_length: "length (after_word LN cs) \<le> length cs"
  using after_word_suffix [of cs LN] by (metis length_append le_add2)

lemma after_word_drop:
  "drop (length cs - length (after_word LN cs)) cs = after_word LN cs"
proof -
  obtain pre where p: "cs = pre @ after_word LN cs"
    using after_word_suffix by blast
  then have "length cs - length (after_word LN cs) = length pre"
    by (metis add_diff_cancel_right' length_append)
  with p show ?thesis
    by (metis append_eq_conv_conj)
qed

lemma matchAll_Nil [simp]: "matchAll LN [] = []"
  by (simp add: matchAll.simps)

lemma matchAll_word:
  assumes "LN c"
  shows "matchAll LN (c # cs) =
    (c # take (length cs - length (after_word LN cs)) cs) # matchAll LN (after_word LN cs)"
  using assms by (subst matchAll.simps) (simp add: Let_def after_word_drop)

lemma matchAll_open:
  assumes "\<not> LN c" and "opening_mark c"
  shows "matchAll LN (c # cs) =
    (c # takeWhile opening_mark cs) # matchAll LN (dropWhile opening_mark cs)"
  using assms by (subst matchAll.simps) simp

lemma matchAll_other:
  assumes "\<not> LN c" and "\<not> opening_mark c" and "\<not> is_space c"
  shows "matchAll LN (c # cs) = [c] # matchAll LN cs"
  using assms by (subst matchAll.simps) simp

lemma matchAll_space:
  assumes "\<not> LN c" and "is_space c"
  shows "matchAll LN (c # cs) = matchAll LN cs"
  using assms by (subst matchAll.simps) (simp add: space_not_mark)

lemma matchAll_sep:
  assumes sp: "\<forall>c. is_space c \<longrightarrow> \<not> LN c" and w: "is_space w"
  shows "matchAll LN (a @ w # b) = matchAll LN a @ matchAll LN b"
proof (induction "length a" arbitrary: a rule: less_induct)
  case less
  from sp w have nw: "\<not> LN w" by blast
  show ?case
  proof (cases a)
    case Nil
    then show ?thesis by (simp add: matchAll_space [of LN w, OF nw w])
  next
    case (Cons c cs)
    show ?thesis
    proof (cases "LN c")
      case True
      let ?n = "length cs - length (after_word LN cs)"
      have len: "length (after_word LN cs) \<le> length cs"
        by (rule after_word_length)
      have aw: "after_word LN (cs @ w # b) = after_word LN cs @ w # b"
        by (rule after_word_sep [OF sp w])
      have n: "length (cs @ w # b) - length (after_word LN cs @ w # b) = ?n"
        using len by simp
      have tk: "take ?n (cs @ w # b) = take ?n cs"
        by simp
      have "matchAll LN ((c # cs) @ w # b) =
          (c # take ?n cs) # matchAll LN (after_word LN cs @ w # b)"
        using matchAll_word [of LN c "cs @ w # b", OF True] by (simp only: append_Cons aw n tk)
      also have "matchAll LN (after_word LN cs @ w # b) =
          matchAll LN (after_word LN cs) @ matchAll LN b"
        using len by (intro less) (simp add: Cons)
      finally show ?thesis
        by (simp add: Cons matchAll_word [of LN c, OF True])
    next
      case nLN: False
      show ?thesis
      proof (cases "opening_mark c")
        case True
        from w have now: "\<not> opening_mark w" by (simp add: space_not_mark)
        have "matchAll LN (dropWhile opening_mark cs @ w # b) =
            matchAll LN (dropWhile opening_mark cs) @ matchAll LN b"
          by (intro less) (simp add: Cons less_Suc_eq_le length_dropWhile_le)
        then show ?thesis
          using now by (simp add: Cons matchAll_open [of LN c, OF nLN True] takeWhile_tail dropWhile_append3)
      next
        case nop: False
        have ih: "matchAll LN (cs @ w # b) = matchAll LN cs @ matchAll LN b"
          by (intro less) (simp add: Cons)
        show ?thesis
        proof (cases "is_space c")
          case True
          then show ?thesis by (simp add: Cons matchAll_space [of LN c, OF nLN True] ih)
        next
          case False
          then show ?thesis by (simp add: Cons matchAll_other [of LN c, OF nLN nop False] ih)
        qed
      qed
    qed
  qed
qed

lemma matchAll_spaces_left:
  assumes sp: "\<forall>c. is_space c \<longrightarrow> \<not> LN c" and "\<forall>w\<in>set ws. is_space w"
  shows "matchAll LN (ws @ b) = matchAll LN b"
  using assms(2)
proof (induction ws)
  case Nil
  show ?case by simp
next
  case (Cons w ws)
  then have w: "is_space w" by simp
  with sp have "\<not> LN w" by blast
  with Cons w show ?case by (simp add: matchAll_space)
qed

lemma matchAll_spaces_mid:
  assumes sp: "\<forall>c. is_space c \<longrightarrow> \<not> LN c" and "\<forall>w\<in>set ws. is_space w" and "ws \<noteq> []"
  shows "matchAll LN (a @ ws @ b) = matchAll LN a @ matchAll LN b"
proof -
  from assms(3) obtain w ws' where ws: "ws = w # ws'" by (cases ws) auto
  with assms(2) have w: "is_space w" and r: "\<forall>w\<in>set ws'. is_space w" by simp_all
  have "matchAll LN (a @ w # (ws' @ b)) = matchAll LN a @ matchAll LN (ws' @ b)"
    by (rule matchAll_sep [OF sp w])
  with matchAll_spaces_left [OF sp r] show ?thesis
    by (simp add: ws)
qed

lemma matchAll_spaces_right:
  assumes sp: "\<forall>c. is_space c \<longrightarrow> \<not> LN c" and "\<forall>w\<in>set ws. is_space w"
  shows "matchAll LN (a @ ws) = matchAll LN a"
proof (cases "ws = []")
  case True
  then show ?thesis by simp
next
  case False
  from matchAll_spaces_mid [OF sp assms(2) False, of a "[]"] show ?thesis by simp
qed

lemma matchAll_trim:
  assumes sp: "\<forall>c. is_space c \<longrightarrow> \<not> LN c"
  shows "matchAll LN (trim s) = matchAll LN s"
proof -
  let ?d = "dropWhile is_space s"
  have "rev ?d = takeWhile is_space (rev ?d) @ dropWhile is_space (rev ?d)"
    by simp
  then have d: "?d = trim s @ rev (takeWhile is_space (rev ?d))"
    unfolding trim_def by (metis rev_append rev_rev_ident)
  have r: "\<forall>w\<in>set (rev (takeWhile is_space (rev ?d))). is_space w"
    by (auto dest: set_takeWhileD)
  have l: "\<forall>w\<in>set (takeWhile is_space s). is_space w"
    by (auto dest: set_takeWhileD)
  have "matchAll LN s = matchAll LN (takeWhile is_space s @ ?d)"
    by simp
  also have "\<dots> = matchAll LN ?d"
    by (rule matchAll_spaces_left [OF sp l])
  also have "\<dots> = matchAll LN (trim s @ rev (takeWhile is_space (rev ?d)))"
    using d by simp
  also have "\<dots> = matchAll LN (trim s)"
    by (rule matchAll_spaces_right [OF sp r])
  finally show ?thesis by simp
qed

lemma replace_runs_Nil [simp]: "replace_runs P n repl [] = []"
  by (simp add: replace_runs.simps)

lemma replace_runs_keep:
  assumes "\<forall>c\<in>set a. \<not> P c"
  shows "replace_runs P n repl (a @ rest) = a @ replace_runs P n repl rest"
  using assms
proof (induction a)
  case Nil
  show ?case by simp
next
  case (Cons c a)
  then have "\<not> P c" and "replace_runs P n repl (a @ rest) = a @ replace_runs P n repl rest"
    by simp_all
  then show ?case
    by (subst append_Cons, subst replace_runs.simps) simp
qed

lemma replace_runs_run:
  assumes "P c"
  shows "replace_runs P n repl (c # cs) =
    (if n \<le> length (c # takeWhile P cs) then repl else c # takeWhile P cs)
      @ replace_runs P n repl (dropWhile P cs)"
  using assms by (subst replace_runs.simps) (simp add: Let_def)

lemma matchAll_replace_runs:
  assumes sp: "\<forall>c. is_space c \<longrightarrow> \<not> LN c"
    and P: "\<forall>c. P c \<longrightarrow> is_space c"
    and repl: "\<forall>c\<in>set repl. is_space c" "repl \<noteq> []"
  shows "matchAll LN (replace_runs P n repl s) = matchAll LN s"
proof (induction "length s" arbitrary: s rule: less_induct)
  case less
  let ?a = "takeWhile (\<lambda>c. \<not> P c) s"
  let ?rest = "dropWhile (\<lambda>c. \<not> P c) s"
  have s: "s = ?a @ ?rest" by simp
  have a: "\<forall>c\<in>set ?a. \<not> P c" by (auto dest: set_takeWhileD)
  have keep: "replace_runs P n repl s = ?a @ replace_runs P n repl ?rest"
    using replace_runs_keep [of ?a P n repl ?rest, OF a] by simp
  show ?case
  proof (cases ?rest)
    case Nil
    with keep s show ?thesis by simp
  next
    case (Cons c cs)
    then have "\<not> \<not> P c"
      using hd_dropWhile [of "\<lambda>c. \<not> P c" s] by (metis list.sel(1) list.distinct(1))
    then have Pc: "P c" by simp
    let ?run = "c # takeWhile P cs"
    let ?d = "dropWhile P cs"
    let ?X = "if n \<le> length ?run then repl else ?run"
    have run: "\<forall>w\<in>set ?run. is_space w"
      using Pc P by (auto dest: set_takeWhileD)
    have X: "\<forall>w\<in>set ?X. is_space w" "?X \<noteq> []"
      using run repl by auto
    have rest: "?rest = ?run @ ?d"
      by (simp add: Cons)
    have "length ?d \<le> length cs" by (rule length_dropWhile_le)
    moreover have "length ?rest \<le> length s" by (rule length_dropWhile_le)
    ultimately have "length ?d < length s"
      by (simp add: Cons)
    then have ih: "matchAll LN (replace_runs P n repl ?d) = matchAll LN ?d"
      by (rule less)
    have "matchAll LN (replace_runs P n repl s) =
        matchAll LN (?a @ ?X @ replace_runs P n repl ?d)"
      using keep replace_runs_run [of P c n repl cs, OF Pc] by (simp only: Cons)
    also have "\<dots> = matchAll LN ?a @ matchAll LN (replace_runs P n repl ?d)"
      by (rule matchAll_spaces_mid [OF sp X])
    also have "\<dots> = matchAll LN ?a @ matchAll LN ?d"
      by (simp only: ih)
    also have "\<dots> = matchAll LN (?a @ ?run @ ?d)"
      by (rule matchAll_spaces_mid [OF sp run, symmetric]) simp
    also have "\<dots> = matchAll LN s"
      using s rest by simp
    finally show ?thesis .
  qed
qed

lemma matchAll_map_newline:
  assumes sp: "\<forall>c. is_space c \<longrightarrow> \<not> LN c"
  shows "matchAll LN (map (\<lambda>c. if c = 10 then 32 else c) s) = matchAll LN s"
proof (induction "length s" arbitrary: s rule: less_induct)
  case less
  let ?f = "\<lambda>c::nat. if c = 10 then 32 else c"
  let ?a = "takeWhile (\<lambda>c. c \<noteq> 10) s"
  let ?rest = "dropWhile (\<lambda>c. c \<noteq> 10) s"
  have s: "s = ?a @ ?rest" by simp
  have a: "map ?f ?a = ?a"
    by (rule map_idI) (auto dest: set_takeWhileD)
  show ?case
  proof (cases ?rest)
    case Nil
    with s have sa: "s = ?a" by (metis append_Nil2)
    from a have "map ?f s = s" by (subst sa, subst (2) sa) simp
    then show ?thesis by simp
  next
    case (Cons c cs)
    then have "\<not> c \<noteq> 10"
      using hd_dropWhile [of "\<lambda>c. c \<noteq> 10" s] by (metis list.sel(1) list.distinct(1))
    then have c: "c = 10" by simp
    have sp10: "is_space 10" and sp32: "is_space 32"
      by (simp_all add: is_space_def)
    have "length ?rest \<le> length s" by (rule length_dropWhile_le)
    then have "length cs < length s" by (simp add: Cons)
    then have ih: "matchAll LN (map ?f cs) = matchAll LN cs"
      by (rule less)
    have "map ?f s = map ?f ?a @ map ?f ?rest"
      by (metis map_append s)
    then have "map ?f s = ?a @ 32 # map ?f cs"
      by (simp add: a Cons c)
    then have "matchAll LN (map ?f s) = matchAll LN (?a @ 32 # map ?f cs)"
      by simp
    also have "\<dots> = matchAll LN ?a @ matchAll LN (map ?f cs)"
      by (rule matchAll_sep [OF sp sp32])
    also have "\<dots> = matchAll LN ?a @ matchAll LN cs"
      by (simp only: ih)
    also have "\<dots> = matchAll LN (?a @ 10 # cs)"
      by (rule matchAll_sep [OF sp sp10, symmetric])
    also have "\<dots> = matchAll LN s"
      using s by (simp add: Cons c)
    finally show ?thesis .
  qed
qed

lemma tokenizeSegment_matchAll:
  assumes sp: "\<forall>c. is_space c \<longrightarrow> \<not> LN c"
  shows "tokenizeSegment LN s = matchAll LN s"
proof -
  let ?prepared = "trim (map (\<lambda>c. if c = 10 then 32 else c)
      (replace_runs is_newline 2 [32, 10, 32] s))"
  have nl: "\<forall>c. is_newline c \<longrightarrow> is_space c"
    by (simp add: is_newline_def is_space_def)
  have repl: "\<forall>c\<in>set [32, 10, 32]. is_space c" "[32, 10, 32] \<noteq> ([]::nat list)"
    by (simp_all add: is_space_def)
  have "matchAll LN ?prepared =
      matchAll LN (map (\<lambda>c. if c = 10 then 32 else c) (replace_runs is_newline 2 [32, 10, 32] s))"
    by (rule matchAll_trim [OF sp])
  also have "\<dots> = matchAll LN (replace_runs is_newline 2 [32, 10, 32] s)"
    by (rule matchAll_map_newline [OF sp])
  also have "\<dots> = matchAll LN s"
    by (rule matchAll_replace_runs [OF sp nl repl])
  finally have m: "matchAll LN ?prepared = matchAll LN s" .
  show ?thesis
  proof (cases "?prepared = []")
    case True
    with m have "matchAll LN s = []" by simp
    with True show ?thesis by (simp add: tokenizeSegment_def)
  next
    case False
    with m show ?thesis by (simp add: tokenizeSegment_def)
  qed
qed

lemma matchAll_tokens:
  assumes sp: "\<forall>c. is_space c \<longrightarrow> \<not> LN c" and "tok \<in> set (matchAll LN s)"
  shows "tok \<noteq> [] \<and> \<not> is_space (hd tok)"
  using assms(2)
proof (induction "length s" arbitrary: s rule: less_induct)
  case less
  show ?case
  proof (cases s)
    case Nil
    with less.prems show ?thesis by simp
  next
    case (Cons c cs)
    show ?thesis
    proof (cases "LN c")
      case True
      with sp have nsp: "\<not> is_space c" by blast
      have "length (after_word LN cs) < length s"
        using after_word_length [of LN cs] by (simp add: Cons)
      from less.hyps [OF this] less.prems nsp show ?thesis
        by (auto simp: Cons matchAll_word [of LN c, OF True])
    next
      case nLN: False
      show ?thesis
      proof (cases "opening_mark c")
        case True
        then have nsp: "\<not> is_space c" using space_not_mark(4) by blast
        have "length (dropWhile opening_mark cs) < length s"
          by (simp add: Cons less_Suc_eq_le length_dropWhile_le)
        from less.hyps [OF this] less.prems nsp show ?thesis
          by (auto simp: Cons matchAll_open [of LN c, OF nLN True])
      next
        case nop: False
        have l: "length cs < length s" by (simp add: Cons)
        show ?thesis
        proof (cases "is_space c")
          case True
          with less.hyps [OF l] less.prems show ?thesis
            by (simp add: Cons matchAll_space [of LN c, OF nLN True])
        next
          case False
          with less.hyps [OF l] less.prems show ?thesis
            by (auto simp: Cons matchAll_other [of LN c, OF nLN nop False])
        qed
      qed
    qed
  qed
qed

lemma matchAll_no_marker:
  assumes sp: "\<forall>c. is_space c \<longrightarrow> \<not> LN c"
  shows "[10] \<notin> set (matchAll LN s)"
proof
  assume "[10] \<in> set (matchAll LN s)"
  from matchAll_tokens [OF sp this] show False
    by (simp add: is_space_def)
qed

lemma filter_matchAll:
  assumes sp: "\<forall>c. is_space c \<longrightarrow> \<not> LN c"
  shows "filter (\<lambda>t. t \<noteq> [10]) (matchAll LN s) = matchAll LN s"
  using matchAll_no_marker [OF sp, of s] by (simp add: filter_id_conv) metis

lemma split_paragraphs_matchAll:
  assumes sp: "\<forall>c. is_space c \<longrightarrow> \<not> LN c"
  shows "concat (map (matchAll LN) (split_paragraphs piece s)) = matchAll LN (piece @ s)"
proof (induction piece s rule: split_paragraphs.induct)
  case (1 piece)
  show ?case by (simp add: split_paragraphs.simps)
next
  case (2 piece c)
  show ?case by (simp add: split_paragraphs.simps)
next
  case (3 piece c d cs)
  show ?case
  proof (cases "c = 10 \<and> d = 10")
    case True
    have sp10: "is_space 10" by (simp add: is_space_def)
    with sp have n10: "\<not> LN 10" by blast
    have run: "\<forall>w\<in>set (takeWhile is_newline cs). is_space w"
      by (auto dest!: set_takeWhileD simp: is_newline_def is_space_def)
    have "concat (map (matchAll LN) (split_paragraphs piece (c # d # cs))) =
        matchAll LN piece @ concat (map (matchAll LN) (split_paragraphs [] (dropWhile is_newline cs)))"
      using True by (simp add: split_paragraphs.simps)
    also have "\<dots> = matchAll LN piece @ matchAll LN (dropWhile is_newline cs)"
      using "3.IH"(1) [OF True] by simp
    also have "matchAll LN (dropWhile is_newline cs) =
        matchAll LN (takeWhile is_newline cs @ dropWhile is_newline cs)"
      by (rule matchAll_spaces_left [OF sp run, symmetric])
    also have "\<dots> = matchAll LN cs" by simp
    also have "matchAll LN piece @ matchAll LN cs = matchAll LN piece @ matchAll LN (10 # cs)"
      by (simp add: matchAll_space [of LN 10, OF n10 sp10])
    also have "\<dots> = matchAll LN (piece @ 10 # 10 # cs)"
      by (rule matchAll_sep [OF sp sp10, symmetric])
    finally show ?thesis using True by simp
  next
    case False
    have "split_paragraphs piece (c # d # cs) = split_paragraphs (piece @ [c]) (d # cs)"
      using False by (subst split_paragraphs.simps) auto
    with "3.IH"(2) [OF False] show ?thesis by simp
  qed
qed

lemma largeLoop_filter:
  assumes sp: "\<forall>c. is_space c \<longrightarrow> \<not> LN c"
  shows "filter (\<lambda>t. t \<noteq> [10]) (largeLoop LN ps tokens) =
         filter (\<lambda>t. t \<noteq> [10]) tokens @ concat (map (matchAll LN) ps)"
  by (induction ps arbitrary: tokens)
    (simp_all add: tokenizeSegment_matchAll [OF sp] filter_matchAll [OF sp])

lemma tokenize_matchAll:
  assumes sp: "\<forall>c. is_space c \<longrightarrow> \<not> LN c"
  shows "tokenize LN text = matchAll LN (normalizeText text)"
  by (simp add: tokenize_def tokenizeSegment_matchAll [OF sp])

lemma replace_cr_other: "c \<noteq> 13 \<Longrightarrow> replace_cr (c # cs) = c # replace_cr cs"
  by (cases cs) simp_all

lemma replace_cr_keep:
  assumes "\<forall>c\<in>set a. c \<noteq> 13"
  shows "replace_cr (a @ r) = a @ replace_cr r"
  using assms by (induction a) (simp_all add: replace_cr_other)

lemma replace_cr_cr:
  "replace_cr (13 # cs) = 10 # replace_cr (case cs of [] \<Rightarrow> [] | d # ds \<Rightarrow> if d = 10 then ds else cs)"
  by (cases cs) simp_all

lemma matchAll_replace_cr:
  assumes sp: "\<forall>c. is_space c \<longrightarrow> \<not> LN c"
  shows "matchAll LN (replace_cr s) = matchAll LN s"
proof (induction "length s" arbitrary: s rule: less_induct)
  case less
  let ?a = "takeWhile (\<lambda>c. c \<noteq> 13) s"
  let ?rest = "dropWhile (\<lambda>c. c \<noteq> 13) s"
  have s: "s = ?a @ ?rest" by simp
  have a: "\<forall>c\<in>set ?a. c \<noteq> 13"
    by (auto dest: set_takeWhileD)
  have sp10: "is_space 10" and sp13: "is_space 13"
    by (simp_all add: is_space_def)
  from sp sp10 have n10: "\<not> LN 10" by blast
  show ?case
  proof (cases ?rest)
    case Nil
    with s have sa: "s = ?a @ []" by simp
    have "replace_cr (?a @ []) = ?a @ replace_cr []"
      by (rule replace_cr_keep [OF a])
    with sa have "replace_cr s = s" by simp
    then show ?thesis by simp
  next
    case (Cons c cs)
    then have "\<not> c \<noteq> 13"
      using hd_dropWhile [of "\<lambda>c. c \<noteq> 13" s] by (metis list.sel(1) list.distinct(1))
    then have c: "c = 13" by simp
    define tl' where "tl' = (case cs of [] \<Rightarrow> [] | d # ds \<Rightarrow> if d = 10 then ds else cs)"
    have "length ?rest \<le> length s" by (rule length_dropWhile_le)
    then have len: "length cs < length s" by (simp add: Cons)
    have "length tl' \<le> length cs"
      by (simp add: tl'_def split: list.splits)
    with len have "length tl' < length s" by simp
    then have ih: "matchAll LN (replace_cr tl') = matchAll LN tl'"
      by (rule less)
    have same: "matchAll LN tl' = matchAll LN cs"
      by (auto simp: tl'_def matchAll_space [of LN 10, OF n10 sp10] split: list.splits)
    have "replace_cr s = replace_cr (?a @ 13 # cs)"
      using s by (simp add: Cons c)
    also have "\<dots> = ?a @ replace_cr (13 # cs)"
      by (rule replace_cr_keep [OF a])
    also have "\<dots> = ?a @ 10 # replace_cr tl'"
      by (simp only: replace_cr_cr tl'_def)
    finally have "matchAll LN (replace_cr s) = matchAll LN (?a @ 10 # replace_cr tl')"
      by simp
    also have "\<dots> = matchAll LN ?a @ matchAll LN (replace_cr tl')"
      by (rule matchAll_sep [OF sp sp10])
    also have "\<dots> = matchAll LN ?a @ matchAll LN cs"
      by (simp only: ih same)
    also have "\<dots> = matchAll LN (?a @ 13 # cs)"
      by (rule matchAll_sep [OF sp sp13, symmetric])
    also have "\<dots> = matchAll LN s"
      using s by (simp add: Cons c)
    finally show ?thesis .
  qed
qed

lemma matchAll_normalizeText:
  assumes sp: "\<forall>c. is_space c \<longrightarrow> \<not> LN c"
  shows "matchAll LN (normalizeText s) = matchAll LN s"
proof -
  have nl: "\<forall>c. is_newline c \<longrightarrow> is_space c"
    by (simp add: is_newline_def is_space_def)
  have bl: "\<forall>c. is_blank c \<longrightarrow> is_space c"
    by (auto simp: is_blank_def is_space_def)
  have r2: "\<forall>c\<in>set [10, 10]. is_space c" "[10, 10] \<noteq> ([]::nat list)"
    by (simp_all add: is_space_def)
  have r1: "\<forall>c\<in>set [32]. is_space c" "[32] \<noteq> ([]::nat list)"
    by (simp_all add: is_space_def)
  have "matchAll LN (normalizeText s) =
      matchAll LN (replace_runs is_newline 3 [10, 10] (replace_runs is_blank 1 [32] (replace_cr s)))"
    unfolding normalizeText_def by (rule matchAll_trim [OF sp])
  also have "\<dots> = matchAll LN (replace_runs is_blank 1 [32] (replace_cr s))"
    by (rule matchAll_replace_runs [OF sp nl r2])
  also have "\<dots> = matchAll LN (replace_cr s)"
    by (rule matchAll_replace_runs [OF sp bl r1])
  also have "\<dots> = matchAll LN s"
    by (rule matchAll_replace_cr [OF sp])
  finally show ?thesis .
qed

lemma tokenize_tokenizeSegment:
  assumes sp: "\<forall>c. is_space c \<longrightarrow> \<not> LN c"
  shows "tokenize LN s = tokenizeSegment LN s"
  by (simp add: tokenize_matchAll [OF sp] matchAll_normalizeText [OF sp] tokenizeSegment_matchAll [OF sp])

lemma largeLoop_join:
  "largeLoop LN ps tokens = tokens @ join_paragraphs (map (tokenizeSegment LN) ps)"
proof (induction ps arbitrary: tokens)
  case Nil
  show ?case by simp
next
  case (Cons p rest)
  have "largeLoop LN (p # rest) tokens =
      largeLoop LN rest (tokens @ tokenizeSegment LN p @ (if rest \<noteq> [] then [[10]] else []))"
    by simp
  also have "\<dots> = (tokens @ tokenizeSegment LN p @ (if rest \<noteq> [] then [[10]] else []))
      @ join_paragraphs (map (tokenizeSegment LN) rest)"
    by (rule Cons.IH)
  also have "\<dots> = tokens @ join_paragraphs (map (tokenizeSegment LN) (p # rest))"
    by (cases rest) simp_all
  finally show ?case .
qed

lemma join_paragraphs_markers:
  assumes "\<forall>ts\<in>set tss. [10] \<notin> set ts"
  shows "length (filter (\<lambda>t. t = [10]) (join_paragraphs tss)) = length tss - 1"
  using assms
proof (induction tss rule: join_paragraphs.induct)
  case 1
  show ?case by simp
next
  case (2 ts)
  then have "filter (\<lambda>t. t = [10]) ts = []"
    by (auto simp: filter_empty_conv)
  then show ?case by simp
next
  case (3 ts us rest)
  then have "filter (\<lambda>t. t = [10]) ts = []"
    by (auto simp: filter_empty_conv)
  moreover from 3 have "length (filter (\<lambda>t. t = [10]) (join_paragraphs (us # rest))) = length (us # rest) - 1"
    by simp
  ultimately show ?case by simp
qed

text \<open>
  Claim C1, amended. The class of letters and numbers contains no white space. Then for
  every input the tokens of \<^verbatim>\<open>tokenizeLargeText\<close> without its paragraph markers are,
  token for token, the tokens of \<^verbatim>\<open>tokenize\<close>, and \<^verbatim>\<open>tokenize\<close> returns no
  paragraph marker. The two differ in the markers: \<^verbatim>\<open>tokenizeLargeText\<close> returns the
  tokens that \<^verbatim>\<open>tokenize\<close> returns for each paragraph of the normalised text, in
  order, with exactly one marker between each two consecutive paragraphs, so that it has
  one marker less than there are paragraphs.
\<close>

theorem tokenizeLargeText_refines:
  assumes "\<forall>c. is_space c \<longrightarrow> \<not> LN c"
  shows "filter (\<lambda>t. t \<noteq> [10]) (tokenizeLargeText LN text) = tokenize LN text
         \<and> [10] \<notin> set (tokenize LN text)
         \<and> tokenizeLargeText LN text =
             join_paragraphs (map (tokenize LN) (split_paragraphs [] (normalizeText text)))
         \<and> length (filter (\<lambda>t. t = [10]) (tokenizeLargeText LN text)) =
             length (split_paragraphs [] (normalizeText text)) - 1"
proof (intro conjI)
  show "filter (\<lambda>t. t \<noteq> [10]) (tokenizeLargeText LN text) = tokenize LN text"
  proof (cases "normalizeText text = []")
    case True
    then show ?thesis
      by (simp add: tokenizeLargeText_def tokenize_matchAll [OF assms])
  next
    case False
    then show ?thesis
      using split_paragraphs_matchAll [OF assms, of "[]" "normalizeText text"]
      by (simp add: tokenizeLargeText_def tokenize_matchAll [OF assms] largeLoop_filter [OF assms])
  qed
  show "[10] \<notin> set (tokenize LN text)"
    by (simp add: tokenize_matchAll [OF assms] matchAll_no_marker [OF assms])
  have seg: "map (tokenize LN) ps = map (tokenizeSegment LN) ps" for ps
    by (simp add: tokenize_tokenizeSegment [OF assms])
  show j: "tokenizeLargeText LN text =
      join_paragraphs (map (tokenize LN) (split_paragraphs [] (normalizeText text)))"
  proof (cases "normalizeText text = []")
    case True
    have "tokenize LN [] = []"
      by (simp add: tokenize_matchAll [OF assms] matchAll_normalizeText [OF assms])
    with True show ?thesis
      by (simp add: tokenizeLargeText_def split_paragraphs.simps)
  next
    case False
    then show ?thesis
      by (simp add: tokenizeLargeText_def largeLoop_join seg)
  qed
  have "\<forall>ts\<in>set (map (tokenize LN) (split_paragraphs [] (normalizeText text))). [10] \<notin> set ts"
    by (simp add: tokenize_matchAll [OF assms] matchAll_no_marker [OF assms])
  from join_paragraphs_markers [OF this]
  show "length (filter (\<lambda>t. t = [10]) (tokenizeLargeText LN text)) =
      length (split_paragraphs [] (normalizeText text)) - 1"
    by (simp add: j)
qed

lemma ascii_alnum_not_space: "\<forall>c. is_space c \<longrightarrow> \<not> ascii_alnum c"
  by (auto simp: is_space_def ascii_alnum_def)

lemma normalize_two_paragraphs: "normalizeText two_paragraphs = two_paragraphs"
  by (simp add: normalizeText_def two_paragraphs_def str_def trim_def is_space_def
      replace_runs.simps is_blank_def is_newline_def)

lemma tokenize_two_paragraphs:
  "tokenize ascii_alnum two_paragraphs = [str ''Alpha'', str ''first.'', str ''Beta'', str ''second.'']"
  unfolding tokenize_def normalize_two_paragraphs
  by (simp add: tokenizeSegment_def two_paragraphs_def str_def trim_def is_space_def
      replace_runs.simps is_newline_def matchAll.simps after_word_def after_joined.simps
      ascii_alnum_def joiner_def trailing_punct_def closing_mark_def opening_mark_def)

lemma split_two_paragraphs:
  "split_paragraphs [] two_paragraphs = [str ''Alpha first.'', str ''Beta second.'']"
  by (simp add: two_paragraphs_def str_def split_paragraphs.simps is_newline_def)

lemma segment_alpha:
  "tokenizeSegment ascii_alnum (str ''Alpha first.'') = [str ''Alpha'', str ''first.'']"
  by (simp add: tokenizeSegment_def str_def trim_def is_space_def
      replace_runs.simps is_newline_def matchAll.simps after_word_def after_joined.simps
      ascii_alnum_def joiner_def trailing_punct_def closing_mark_def opening_mark_def)

lemma segment_beta:
  "tokenizeSegment ascii_alnum (str ''Beta second.'') = [str ''Beta'', str ''second.'']"
  by (simp add: tokenizeSegment_def str_def trim_def is_space_def
      replace_runs.simps is_newline_def matchAll.simps after_word_def after_joined.simps
      ascii_alnum_def joiner_def trailing_punct_def closing_mark_def opening_mark_def)

lemma two_paragraphs_nonempty: "two_paragraphs \<noteq> []"
  by (simp add: two_paragraphs_def str_def)

lemma large_two_paragraphs:
  "tokenizeLargeText ascii_alnum two_paragraphs =
     [str ''Alpha'', str ''first.'', [10], str ''Beta'', str ''second.'']"
  unfolding tokenizeLargeText_def normalize_two_paragraphs
  by (simp add: two_paragraphs_nonempty split_two_paragraphs segment_alpha segment_beta)

text \<open>
  Claim C1, as stated, fails on the input of the repository's own test: for two paragraphs
  with a blank line between them \<^verbatim>\<open>tokenizeLargeText\<close> returns five tokens, with the
  paragraph marker in the middle, and \<^verbatim>\<open>tokenize\<close> returns four.
\<close>

theorem tokenizeLargeText_marker_counterexample:
  "tokenizeLargeText ascii_alnum two_paragraphs =
     [str ''Alpha'', str ''first.'', [10], str ''Beta'', str ''second.'']
   \<and> tokenize ascii_alnum two_paragraphs =
     [str ''Alpha'', str ''first.'', str ''Beta'', str ''second.'']
   \<and> tokenizeLargeText ascii_alnum two_paragraphs \<noteq> tokenize ascii_alnum two_paragraphs"
  by (simp add: large_two_paragraphs tokenize_two_paragraphs)

theorem tokenizeLargeText_refines_witness:
  "filter (\<lambda>t. t \<noteq> [10]) (tokenizeLargeText ascii_alnum two_paragraphs) =
     [str ''Alpha'', str ''first.'', str ''Beta'', str ''second.'']
   \<and> tokenizeLargeText ascii_alnum two_paragraphs =
       join_paragraphs [tokenize ascii_alnum (str ''Alpha first.''), tokenize ascii_alnum (str ''Beta second.'')]
   \<and> length (filter (\<lambda>t. t = [10]) (tokenizeLargeText ascii_alnum two_paragraphs)) = 1"
proof -
  note t = tokenizeLargeText_refines [OF ascii_alnum_not_space, of two_paragraphs]
  from t have "filter (\<lambda>t. t \<noteq> [10]) (tokenizeLargeText ascii_alnum two_paragraphs) =
      tokenize ascii_alnum two_paragraphs"
    by (rule conjunct1)
  then have a: "filter (\<lambda>t. t \<noteq> [10]) (tokenizeLargeText ascii_alnum two_paragraphs) =
      [str ''Alpha'', str ''first.'', str ''Beta'', str ''second.'']"
    by (simp only: tokenize_two_paragraphs)
  from t have "tokenizeLargeText ascii_alnum two_paragraphs =
      join_paragraphs (map (tokenize ascii_alnum) (split_paragraphs [] (normalizeText two_paragraphs)))"
    by blast
  then have b: "tokenizeLargeText ascii_alnum two_paragraphs =
      join_paragraphs [tokenize ascii_alnum (str ''Alpha first.''), tokenize ascii_alnum (str ''Beta second.'')]"
    by (simp only: normalize_two_paragraphs split_two_paragraphs list.map)
  from t have "length (filter (\<lambda>t. t = [10]) (tokenizeLargeText ascii_alnum two_paragraphs)) =
      length (split_paragraphs [] (normalizeText two_paragraphs)) - 1"
    by blast
  then have c: "length (filter (\<lambda>t. t = [10]) (tokenizeLargeText ascii_alnum two_paragraphs)) = 1"
    by (simp only: normalize_two_paragraphs split_two_paragraphs) simp
  from a b c show ?thesis by (intro conjI)
qed

text \<open>
  Claim C2, as stated, fails in its first half: \<^verbatim>\<open>tokenize\<close> of the two paragraphs is
  not the sequence of five tokens with the paragraph marker; it has four tokens.
\<close>

theorem tokenize_marker_counterexample:
  "tokenize ascii_alnum two_paragraphs \<noteq>
     [str ''Alpha'', str ''first.'', [10], str ''Beta'', str ''second.'']
   \<and> length (tokenize ascii_alnum two_paragraphs) = 4"
  by (simp add: tokenize_two_paragraphs)

text \<open>
  Claim C2, amended. \<^verbatim>\<open>tokenize\<close> of \<^verbatim>\<open>Alpha first.\<close>, a blank line and
  \<^verbatim>\<open>Beta second.\<close> returns exactly the four tokens \<^verbatim>\<open>Alpha\<close>, \<^verbatim>\<open>first.\<close>,
  \<^verbatim>\<open>Beta\<close>, \<^verbatim>\<open>second.\<close>; and for every input text, with or without paragraphs
  separated by blank lines, \<^verbatim>\<open>tokenize\<close> returns no paragraph marker (the letters and
  numbers containing no white space).
\<close>

theorem tokenize_markers:
  "tokenize ascii_alnum two_paragraphs =
     [str ''Alpha'', str ''first.'', str ''Beta'', str ''second.'']
   \<and> ((\<forall>c. is_space c \<longrightarrow> \<not> LN c) \<longrightarrow> [10] \<notin> set (tokenize LN text))"
  by (simp add: tokenize_two_paragraphs tokenize_matchAll matchAll_no_marker)

theorem tokenize_markers_witness:
  "[10] \<notin> set (tokenize ascii_alnum two_paragraphs)
   \<and> [10] \<notin> set (tokenize ascii_alnum (str ''Hello, world!''))"
  using tokenize_markers [of ascii_alnum two_paragraphs]
    tokenize_markers [of ascii_alnum "str ''Hello, world!''"] ascii_alnum_not_space
  by blast

end
